theory Spec2Isabelle
  imports Main "HOL-Library.Word"
begin

unbundle bit_operations_syntax

section \<open>The ring buffer of brain.go, executed by one thread\<close>

text \<open>
  The embedding follows \<^verbatim>\<open>src/brain.go\<close> function by function. It is the
  single-threaded reading of the code: an atomic load is a read of the field, an atomic
  store is a write, and a compare-and-swap on a cursor that was loaded in the same
  iteration succeeds, since no other thread runs between the load and the swap.

  \<^item> \<^verbatim>\<open>uint64\<close> and \<^verbatim>\<open>uint32\<close> are words, so \<open>+\<close> and \<open>-\<close> wrap as in Go;
    \<^verbatim>\<open>int64(a) - int64(b)\<close> is the signed reading \<open>sint (a - b)\<close> of the wrapped
    difference.
  \<^item> a \<^verbatim>\<open>float64\<close> is its 64-bit IEEE-754 pattern: the buffer only copies prices.
  \<^item> a slice is a list; an index outside the slice is the run-time panic
    \<open>IndexOutOfRange\<close>, which ends the call without a state.
  \<^item> \<^verbatim>\<open>make([]T, n)\<close> with a \<^verbatim>\<open>uint64\<close> length \<open>n\<close> is the run-time panic
    \<open>MakesliceLenOutOfRange\<close> (\<^verbatim>\<open>makeslice: len out of range\<close>) when \<open>n\<close> does not
    fit an \<^verbatim>\<open>int\<close> or the slice would exceed what the platform can address. The
    bound depends on the platform, so it is a parameter \<open>max_len\<close> of the model: the
    largest length that \<^verbatim>\<open>make\<close> takes for a slice of 8-byte elements. A length of
    \<open>2 ^ 63\<close> or more fits no \<^verbatim>\<open>int\<close> and is refused whatever \<open>max_len\<close> is.
  \<^item> a \<^verbatim>\<open>for\<close> loop that may spin is a \<^theory_text>\<open>partial_function\<close> in the option
    monad: \<open>None\<close> says that the call never returns.
  \<^item> once \<^verbatim>\<open>make\<close> has taken the length, the allocation is assumed to succeed:
    running out of memory is a fatal error of the Go run time, not a result of the call.

  Threads appear only in the last section, where the steps of several callers on one
  buffer are written out one after the other.
\<close>

type_synonym uint64 = "64 word"
type_synonym uint32 = "32 word"
type_synonym float64 = "64 word"

datatype go_panic = IndexOutOfRange | MakesliceLenOutOfRange

type_synonym 'a result = "go_panic + 'a"
type_synonym 'a outcome = "(go_panic + 'a) option"

record RingBuffer =
  capacity :: uint64
  mask_rb :: uint64
  writeIndex :: uint64
  readIndex :: uint64
  cycleState :: "uint64 list"
  ids :: "uint64 list"
  prices :: "float64 list"
  qtys :: "uint32 list"

text \<open>The caller's three parallel slices of a batch call.\<close>

type_synonym batch = "uint64 list \<times> float64 list \<times> uint32 list"

subsection \<open>Slices\<close>

definition index :: "'a list \<Rightarrow> nat \<Rightarrow> 'a result" where
  "index xs i = (if i < length xs then Inr (xs ! i) else Inl IndexOutOfRange)"

definition store :: "'a list \<Rightarrow> nat \<Rightarrow> 'a \<Rightarrow> 'a list result" where
  "store xs i v = (if i < length xs then Inr (xs[i := v]) else Inl IndexOutOfRange)"

definition bind_result :: "'a result \<Rightarrow> ('a \<Rightarrow> 'b result) \<Rightarrow> 'b result" where
  "bind_result m f = (case m of Inl e \<Rightarrow> Inl e | Inr x \<Rightarrow> f x)"

text \<open>A counted loop \<^verbatim>\<open>for i := 0; i < n; i++ { body }\<close> runs \<open>body\<close> over \<open>[0..<n]\<close>;
  a panic or a spin of the body ends it.\<close>

fun for_each :: "(nat \<Rightarrow> 's \<Rightarrow> 's outcome) \<Rightarrow> nat list \<Rightarrow> 's \<Rightarrow> 's outcome" where
  "for_each body [] s = Some (Inr s)"
| "for_each body (i # js) s =
     (case body i s of
        None \<Rightarrow> None
      | Some (Inl e) \<Rightarrow> Some (Inl e)
      | Some (Inr s') \<Rightarrow> for_each body js s')"

definition map_outcome :: "('a \<Rightarrow> 'b) \<Rightarrow> 'a outcome \<Rightarrow> 'b outcome" where
  "map_outcome f m = map_option (map_sum (\<lambda>e. e) f) m"

subsection \<open>Newbuffer\<close>

text \<open>
  The first of the four \<^verbatim>\<open>make\<close> calls, for \<^verbatim>\<open>cycleState\<close>, decides: its elements
  have 8 bytes, those of the later slices 8, 8 and 4, so a length that the first call
  takes is taken by the other three. The function tests nothing else about the capacity.
\<close>

definition make_panics :: "uint64 \<Rightarrow> uint64 \<Rightarrow> bool" where
  "make_panics max_len n = (2 ^ 63 \<le> n \<or> max_len < n)"

definition Newbuffer :: "uint64 \<Rightarrow> uint64 \<Rightarrow> RingBuffer result" where
  "Newbuffer max_len cap =
     (if make_panics max_len cap then Inl MakesliceLenOutOfRange
      else
        let buffer = \<lparr>capacity = cap, mask_rb = cap - 1, writeIndex = 0, readIndex = 0,
                       cycleState = replicate (unat cap) 0, ids = replicate (unat cap) 0,
                       prices = replicate (unat cap) 0, qtys = replicate (unat cap) 0\<rparr>
        in Inr (buffer\<lparr>cycleState :=
             fold (\<lambda>i cs. cs[i := of_nat i]) [0..<unat cap] (cycleState buffer)\<rparr>))"

subsection \<open>Enqueue\<close>

text \<open>The statements after the loop: the payload writes and the publishing store.\<close>

definition Enqueue_publish ::
  "RingBuffer \<Rightarrow> uint64 \<Rightarrow> uint64 \<Rightarrow> uint64 \<Rightarrow> float64 \<Rightarrow> uint32 \<Rightarrow> (bool \<times> RingBuffer) result" where
  "Enqueue_publish rb head offset id' price qty =
     bind_result (store (ids rb) (unat offset) id') (\<lambda>ids'.
     bind_result (store (prices rb) (unat offset) price) (\<lambda>prices'.
     bind_result (store (qtys rb) (unat offset) qty) (\<lambda>qtys'.
     bind_result (store (cycleState rb) (unat offset) (head + 1)) (\<lambda>cs'.
     Inr (True, rb\<lparr>cycleState := cs', ids := ids', prices := prices', qtys := qtys'\<rparr>)))))"

partial_function (option) Enqueue ::
  "RingBuffer \<Rightarrow> uint64 \<Rightarrow> float64 \<Rightarrow> uint32 \<Rightarrow> (bool \<times> RingBuffer) outcome" where
  "Enqueue rb id' price qty =
    (let head = writeIndex rb;
         offset = head AND mask_rb rb
     in (case index (cycleState rb) (unat offset) of
           Inl e \<Rightarrow> Some (Inl e)
         | Inr cycleVal \<Rightarrow>
            (let diff = cycleVal - head
             in if diff = 0 then
                  Some (Enqueue_publish (rb\<lparr>writeIndex := head + 1\<rparr>) head offset id' price qty)
                else if sint diff < 0 then Some (Inr (False, rb))
                else Enqueue rb id' price qty)))"

declare Enqueue.simps [code]

subsection \<open>EnqueueBatch\<close>

text \<open>One round of the copy loop, for the loop counter \<open>i\<close>.\<close>

definition EnqueueBatch_copy ::
  "uint64 \<Rightarrow> batch \<Rightarrow> nat \<Rightarrow> RingBuffer \<Rightarrow> RingBuffer outcome" where
  "EnqueueBatch_copy head src i rb =
     (case src of (ids', prices', qtys') \<Rightarrow>
      let idx = unat ((head + of_nat i) AND mask_rb rb)
      in Some (
           bind_result (index ids' i) (\<lambda>v1.
           bind_result (store (ids rb) idx v1) (\<lambda>rb_ids.
           bind_result (index prices' i) (\<lambda>v2.
           bind_result (store (prices rb) idx v2) (\<lambda>rb_prices.
           bind_result (index qtys' i) (\<lambda>v3.
           bind_result (store (qtys rb) idx v3) (\<lambda>rb_qtys.
           bind_result (store (cycleState rb) idx (head + of_nat i + 1)) (\<lambda>cs'.
           Inr (rb\<lparr>cycleState := cs', ids := rb_ids, prices := rb_prices,
                   qtys := rb_qtys\<rparr>))))))))))"

partial_function (option) EnqueueBatch ::
  "RingBuffer \<Rightarrow> uint64 list \<Rightarrow> float64 list \<Rightarrow> uint32 list \<Rightarrow> (uint64 \<times> RingBuffer) outcome" where
  "EnqueueBatch rb ids' prices' qtys' =
    (let count = (of_nat (length ids') :: uint64);
         head = writeIndex rb;
         offset = head AND mask_rb rb
     in (case index (cycleState rb) (unat offset) of
           Inl e \<Rightarrow> Some (Inl e)
         | Inr cycleVal \<Rightarrow>
            (let diff = cycleVal - head
             in if sint diff < 0 then Some (Inr (0, rb))
                else if diff = 0 then
                  (let tailOffset = (head + count - 1) AND mask_rb rb
                   in (case index (cycleState rb) (unat tailOffset) of
                         Inl e \<Rightarrow> Some (Inl e)
                       | Inr tailCycle \<Rightarrow>
                           if sint (tailCycle - (head + count - 1)) < 0 then Some (Inr (0, rb))
                           else map_outcome (\<lambda>rb'. (count, rb'))
                                  (for_each (EnqueueBatch_copy head (ids', prices', qtys'))
                                     [0..<unat count] (rb\<lparr>writeIndex := head + count\<rparr>))))
                else EnqueueBatch rb ids' prices' qtys')))"

declare EnqueueBatch.simps [code]

subsection \<open>DequeueBatch\<close>

text \<open>The inner wait of the copy loop: it spins until the slot's cycle is \<open>currIndex + 1\<close>.\<close>

partial_function (option) await_cycle :: "RingBuffer \<Rightarrow> uint64 \<Rightarrow> uint64 \<Rightarrow> unit outcome" where
  "await_cycle rb currOffset currIndex =
     (case index (cycleState rb) (unat currOffset) of
        Inl e \<Rightarrow> Some (Inl e)
      | Inr c \<Rightarrow> if c = currIndex + 1 then Some (Inr ())
                else await_cycle rb currOffset currIndex)"

declare await_cycle.simps [code]

definition DequeueBatch_copy ::
  "uint64 \<Rightarrow> nat \<Rightarrow> RingBuffer \<times> batch \<Rightarrow> (RingBuffer \<times> batch) outcome" where
  "DequeueBatch_copy tail i s =
     (case s of (rb, ids', prices', qtys') \<Rightarrow>
      let currIndex = tail + of_nat i;
          currOffset = currIndex AND mask_rb rb
      in (case await_cycle rb currOffset currIndex of
            None \<Rightarrow> None
          | Some (Inl e) \<Rightarrow> Some (Inl e)
          | Some (Inr u) \<Rightarrow> Some (
              bind_result (index (ids rb) (unat currOffset)) (\<lambda>v1.
              bind_result (store ids' i v1) (\<lambda>out_ids.
              bind_result (index (prices rb) (unat currOffset)) (\<lambda>v2.
              bind_result (store prices' i v2) (\<lambda>out_prices.
              bind_result (index (qtys rb) (unat currOffset)) (\<lambda>v3.
              bind_result (store qtys' i v3) (\<lambda>out_qtys.
              bind_result (store (cycleState rb) (unat currOffset) (currIndex + capacity rb)) (\<lambda>cs'.
              Inr (rb\<lparr>cycleState := cs'\<rparr>, out_ids, out_prices, out_qtys)))))))))))"

text \<open>The outer loop of \<^verbatim>\<open>DequeueBatch\<close> repeats only when the compare-and-swap
  fails, so with one thread its body runs once.\<close>

definition DequeueBatch ::
  "RingBuffer \<Rightarrow> uint64 list \<Rightarrow> float64 list \<Rightarrow> uint32 list \<Rightarrow> (uint64 \<times> batch \<times> RingBuffer) outcome" where
  "DequeueBatch rb ids' prices' qtys' =
    (let limit = (of_nat (length ids') :: uint64)
     in if limit = 0 then Some (Inr (0, (ids', prices', qtys'), rb))
        else
         (let tail = readIndex rb;
              offset = tail AND mask_rb rb
          in (case index (cycleState rb) (unat offset) of
                Inl e \<Rightarrow> Some (Inl e)
              | Inr cycleVal \<Rightarrow>
                  if sint (cycleVal - (tail + 1)) < 0 then Some (Inr (0, (ids', prices', qtys'), rb))
                  else
                   (let tailOffset = (tail + limit - 1) AND mask_rb rb
                    in (case index (cycleState rb) (unat tailOffset) of
                          Inl e \<Rightarrow> Some (Inl e)
                        | Inr tailCycle \<Rightarrow>
                            if sint (tailCycle - (tail + limit)) < 0
                            then Some (Inr (0, (ids', prices', qtys'), rb))
                            else map_outcome (\<lambda>(rb', out). (limit, out, rb'))
                                   (for_each (DequeueBatch_copy tail) [0..<unat limit]
                                      (rb\<lparr>readIndex := tail + limit\<rparr>, ids', prices', qtys')))))))"

subsection \<open>Dequeue\<close>

text \<open>The three out-parameters are passed as a triple and returned; a call that returns
  \<open>False\<close> leaves them as they were. The pointers are taken to be valid.\<close>

type_synonym record_out = "uint64 \<times> float64 \<times> uint32"

definition Dequeue_read ::
  "RingBuffer \<Rightarrow> uint64 \<Rightarrow> uint64 \<Rightarrow> (bool \<times> record_out \<times> RingBuffer) result" where
  "Dequeue_read rb tail offset =
     bind_result (index (ids rb) (unat offset)) (\<lambda>v1.
     bind_result (index (prices rb) (unat offset)) (\<lambda>v2.
     bind_result (index (qtys rb) (unat offset)) (\<lambda>v3.
     bind_result (store (cycleState rb) (unat offset) (tail + capacity rb)) (\<lambda>cs'.
     Inr (True, (v1, v2, v3), rb\<lparr>cycleState := cs'\<rparr>)))))"

partial_function (option) Dequeue ::
  "RingBuffer \<Rightarrow> record_out \<Rightarrow> (bool \<times> record_out \<times> RingBuffer) outcome" where
  "Dequeue rb out =
    (let tail = readIndex rb;
         offset = tail AND mask_rb rb
     in (case index (cycleState rb) (unat offset) of
           Inl e \<Rightarrow> Some (Inl e)
         | Inr cycleVal \<Rightarrow>
            (let diff = cycleVal - (tail + 1)
             in if diff = 0 then
                  Some (Dequeue_read (rb\<lparr>readIndex := tail + 1\<rparr>) tail offset)
                else if sint diff < 0 then Some (Inr (False, out, rb))
                else Dequeue rb out)))"

declare Dequeue.simps [code]

subsection \<open>Sequential programs over one buffer\<close>

text \<open>A sequential caller is a list of calls; \<open>run\<close> performs them in order on the
  buffer and collects what each call returns. A panic or a call that never returns ends
  the program.\<close>

datatype op =
    OpEnqueue uint64 float64 uint32
  | OpDequeue record_out
  | OpEnqueueBatch "uint64 list" "float64 list" "uint32 list"
  | OpDequeueBatch "uint64 list" "float64 list" "uint32 list"

datatype ret =
    RetEnqueue bool
  | RetDequeue bool record_out
  | RetEnqueueBatch uint64
  | RetDequeueBatch uint64 batch

fun exec :: "RingBuffer \<Rightarrow> op \<Rightarrow> (ret \<times> RingBuffer) outcome" where
  "exec rb (OpEnqueue id' price qty) =
     map_outcome (\<lambda>(ok, rb'). (RetEnqueue ok, rb')) (Enqueue rb id' price qty)"
| "exec rb (OpDequeue out) =
     map_outcome (\<lambda>(ok, out', rb'). (RetDequeue ok out', rb')) (Dequeue rb out)"
| "exec rb (OpEnqueueBatch ids' prices' qtys') =
     map_outcome (\<lambda>(n, rb'). (RetEnqueueBatch n, rb')) (EnqueueBatch rb ids' prices' qtys')"
| "exec rb (OpDequeueBatch ids' prices' qtys') =
     map_outcome (\<lambda>(n, out', rb'). (RetDequeueBatch n out', rb'))
       (DequeueBatch rb ids' prices' qtys')"

fun run :: "RingBuffer \<Rightarrow> op list \<Rightarrow> (ret list \<times> RingBuffer) outcome" where
  "run rb [] = Some (Inr ([], rb))"
| "run rb (c # cs) =
     (case exec rb c of
        None \<Rightarrow> None
      | Some (Inl e) \<Rightarrow> Some (Inl e)
      | Some (Inr (r, rb')) \<Rightarrow> map_outcome (\<lambda>(rs, rb''). (r # rs, rb'')) (run rb' cs))"

text \<open>
  A program: it builds the buffer with \<^verbatim>\<open>Newbuffer\<close> and makes the calls on it. A
  panic in the construction ends the program before the first call.
\<close>

definition program ::
  "uint64 \<Rightarrow> uint64 \<Rightarrow> op list \<Rightarrow> (ret list \<times> RingBuffer) outcome" where
  "program max_len cap cs =
     (case Newbuffer max_len cap of
        Inl e \<Rightarrow> Some (Inl e)
      | Inr rb \<Rightarrow> run rb cs)"

text \<open>The contract of the batch calls: a batch is no longer than the capacity.\<close>

fun within_capacity :: "uint64 \<Rightarrow> op \<Rightarrow> bool" where
  "within_capacity cap (OpEnqueueBatch ids' prices' qtys') = (length ids' \<le> unat cap)"
| "within_capacity cap (OpDequeueBatch ids' prices' qtys') = (length ids' \<le> unat cap)"
| "within_capacity cap c = True"

text \<open>The price 100.0 of the scenarios, as its IEEE-754 binary64 pattern.\<close>

definition price_100 :: float64 where
  "price_100 = 0x4059000000000000"

subsection \<open>The conditions the code tests\<close>

text \<open>The slot of a cursor value, \<^verbatim>\<open>c & rb.mask\<close>.\<close>

definition slot_of :: "RingBuffer \<Rightarrow> uint64 \<Rightarrow> nat" where
  "slot_of rb c = unat (c AND mask_rb rb)"

text \<open>\<^verbatim>\<open>Enqueue\<close> reports a full queue when the head slot's cycle is behind the head
  cursor, \<^verbatim>\<open>Dequeue\<close> an empty one when the tail slot's cycle is behind \<open>tail + 1\<close>.\<close>

definition head_behind :: "RingBuffer \<Rightarrow> bool" where
  "head_behind rb \<longleftrightarrow>
     sint (cycleState rb ! slot_of rb (writeIndex rb) - writeIndex rb) < 0"

definition tail_behind :: "RingBuffer \<Rightarrow> bool" where
  "tail_behind rb \<longleftrightarrow>
     sint (cycleState rb ! slot_of rb (readIndex rb) - (readIndex rb + 1)) < 0"

subsection \<open>The states after a successful call\<close>

text \<open>A successful \<^verbatim>\<open>Enqueue\<close> advances the head cursor by one, writes the record into
  the head slot and publishes the slot with the cycle \<open>head + 1\<close>.\<close>

definition enqueued :: "RingBuffer \<Rightarrow> uint64 \<Rightarrow> float64 \<Rightarrow> uint32 \<Rightarrow> RingBuffer" where
  "enqueued rb id' price qty =
     rb\<lparr>writeIndex := writeIndex rb + 1,
        cycleState := (cycleState rb)[slot_of rb (writeIndex rb) := writeIndex rb + 1],
        ids := (ids rb)[slot_of rb (writeIndex rb) := id'],
        prices := (prices rb)[slot_of rb (writeIndex rb) := price],
        qtys := (qtys rb)[slot_of rb (writeIndex rb) := qty]\<rparr>"

text \<open>A successful \<^verbatim>\<open>Dequeue\<close> advances the tail cursor by one and releases the tail
  slot with the cycle \<open>tail + capacity\<close>.\<close>

definition dequeued :: "RingBuffer \<Rightarrow> RingBuffer" where
  "dequeued rb =
     rb\<lparr>readIndex := readIndex rb + 1,
        cycleState := (cycleState rb)[slot_of rb (readIndex rb) := readIndex rb + capacity rb]\<rparr>"

text \<open>\<open>batch_written rb src n rb'\<close>: from \<open>rb\<close>, the first \<open>n\<close> records of \<open>src\<close> were
  written to the cursor positions \<open>head .. head + n - 1\<close> and published, the head cursor
  moved by \<open>n\<close>, and nothing else changed.\<close>

definition batch_written :: "RingBuffer \<Rightarrow> batch \<Rightarrow> nat \<Rightarrow> RingBuffer \<Rightarrow> bool" where
  "batch_written rb src n rb' \<longleftrightarrow>
     (case src of (ids', prices', qtys') \<Rightarrow>
        writeIndex rb' = writeIndex rb + of_nat n \<and> readIndex rb' = readIndex rb \<and>
        capacity rb' = capacity rb \<and> mask_rb rb' = mask_rb rb \<and>
        length (cycleState rb') = length (cycleState rb) \<and>
        length (ids rb') = length (ids rb) \<and> length (prices rb') = length (prices rb) \<and>
        length (qtys rb') = length (qtys rb) \<and>
        (\<forall>i < n.
           cycleState rb' ! slot_of rb (writeIndex rb + of_nat i) = writeIndex rb + of_nat i + 1 \<and>
           ids rb' ! slot_of rb (writeIndex rb + of_nat i) = ids' ! i \<and>
           prices rb' ! slot_of rb (writeIndex rb + of_nat i) = prices' ! i \<and>
           qtys rb' ! slot_of rb (writeIndex rb + of_nat i) = qtys' ! i) \<and>
        (\<forall>off. (\<forall>i < n. off \<noteq> slot_of rb (writeIndex rb + of_nat i)) \<longrightarrow>
           cycleState rb' ! off = cycleState rb ! off \<and> ids rb' ! off = ids rb ! off \<and>
           prices rb' ! off = prices rb ! off \<and> qtys rb' ! off = qtys rb ! off))"

text \<open>\<open>batch_released rb n rb'\<close>: from \<open>rb\<close>, the slots of the cursor positions
  \<open>tail .. tail + n - 1\<close> were released for the next lap, the tail cursor moved by \<open>n\<close>,
  and nothing else changed.\<close>

definition batch_released :: "RingBuffer \<Rightarrow> nat \<Rightarrow> RingBuffer \<Rightarrow> bool" where
  "batch_released rb n rb' \<longleftrightarrow>
     readIndex rb' = readIndex rb + of_nat n \<and> writeIndex rb' = writeIndex rb \<and>
     capacity rb' = capacity rb \<and> mask_rb rb' = mask_rb rb \<and>
     ids rb' = ids rb \<and> prices rb' = prices rb \<and> qtys rb' = qtys rb \<and>
     length (cycleState rb') = length (cycleState rb) \<and>
     (\<forall>i < n. cycleState rb' ! slot_of rb (readIndex rb + of_nat i) =
                readIndex rb + of_nat i + capacity rb) \<and>
     (\<forall>off. (\<forall>i < n. off \<noteq> slot_of rb (readIndex rb + of_nat i)) \<longrightarrow>
        cycleState rb' ! off = cycleState rb ! off)"

text \<open>\<open>batch_read rb n out out'\<close>: the caller's slices \<open>out\<close> received, at the indices
  below \<open>n\<close>, the records of the cursor positions \<open>tail .. tail + n - 1\<close> of \<open>rb\<close> in
  cursor order, and kept their other entries.\<close>

definition batch_read :: "RingBuffer \<Rightarrow> nat \<Rightarrow> batch \<Rightarrow> batch \<Rightarrow> bool" where
  "batch_read rb n out out' \<longleftrightarrow>
     (case (out, out') of ((a, p, q), (a', p', q')) \<Rightarrow>
        length a' = length a \<and> length p' = length p \<and> length q' = length q \<and>
        (\<forall>i < n.
           a' ! i = ids rb ! slot_of rb (readIndex rb + of_nat i) \<and>
           p' ! i = prices rb ! slot_of rb (readIndex rb + of_nat i) \<and>
           q' ! i = qtys rb ! slot_of rb (readIndex rb + of_nat i)) \<and>
        (\<forall>i. n \<le> i \<longrightarrow> a' ! i = a ! i \<and> p' ! i = p ! i \<and> q' ! i = q ! i))"

subsection \<open>Invariants of the reachable states\<close>

text \<open>For a capacity \<open>2 ^ j\<close> the slot of a cursor is its value modulo \<open>2 ^ j\<close>.\<close>

definition slot :: "nat \<Rightarrow> uint64 \<Rightarrow> nat" where
  "slot j c = unat c mod 2 ^ j"

definition wf :: "nat \<Rightarrow> RingBuffer \<Rightarrow> bool" where
  "wf j rb \<longleftrightarrow>
     j < 64 \<and> capacity rb = 2 ^ j \<and> mask_rb rb = 2 ^ j - 1 \<and>
     length (cycleState rb) = 2 ^ j \<and> length (ids rb) = 2 ^ j \<and>
     length (prices rb) = 2 ^ j \<and> length (qtys rb) = 2 ^ j"

text \<open>Every cycle value sits in its own slot, as an empty or as a filled one.\<close>

definition cycle_shape :: "nat \<Rightarrow> uint64 list \<Rightarrow> bool" where
  "cycle_shape j cs \<longleftrightarrow>
     (\<forall>off < 2 ^ j. slot j (cs ! off) = off \<or> slot j (cs ! off - 1) = off)"

text \<open>The lap structure: counted from the tail cursor \<open>t\<close>, the first \<open>m\<close> positions are
  filled (cycle = position + 1) and the others are empty (cycle = position).\<close>

definition laps :: "nat \<Rightarrow> uint64 \<Rightarrow> nat \<Rightarrow> uint64 list \<Rightarrow> bool" where
  "laps j t m cs \<longleftrightarrow>
     (\<forall>i < 2 ^ j. cs ! slot j (t + of_nat i) = t + of_nat i + (if i < m then 1 else 0))"

definition inv :: "nat \<Rightarrow> RingBuffer \<Rightarrow> bool" where
  "inv j rb \<longleftrightarrow>
     wf j rb \<and>
     (if j = 0 then cycleState rb = [writeIndex rb]
      else (\<exists>m \<le> 2 ^ j. writeIndex rb = readIndex rb + of_nat m \<and>
              laps j (readIndex rb) m (cycleState rb)))"

text \<open>The invariant of every state a program reaches, whatever the batch lengths.\<close>

definition weak :: "nat \<Rightarrow> RingBuffer \<Rightarrow> bool" where
  "weak j rb \<longleftrightarrow> wf j rb \<and> cycle_shape j (cycleState rb)"

text \<open>The state of the two copy loops after \<open>k\<close> rounds. \<open>copied j h src k rb rb'\<close>:
  the loop of \<^verbatim>\<open>EnqueueBatch\<close>, entered in \<open>rb\<close> with the reserved head \<open>h\<close>, has
  written and published the first \<open>k\<close> records of \<open>src\<close>.\<close>

definition copied :: "nat \<Rightarrow> uint64 \<Rightarrow> batch \<Rightarrow> nat \<Rightarrow> RingBuffer \<Rightarrow> RingBuffer \<Rightarrow> bool" where
  "copied j h src k rb rb' \<longleftrightarrow>
     (case src of (a, p, q) \<Rightarrow>
        wf j rb' \<and> writeIndex rb' = writeIndex rb \<and> readIndex rb' = readIndex rb \<and>
        (\<forall>i < k.
           cycleState rb' ! slot j (h + of_nat i) = h + of_nat i + 1 \<and>
           ids rb' ! slot j (h + of_nat i) = a ! i \<and>
           prices rb' ! slot j (h + of_nat i) = p ! i \<and>
           qtys rb' ! slot j (h + of_nat i) = q ! i) \<and>
        (\<forall>off. (\<forall>i < k. off \<noteq> slot j (h + of_nat i)) \<longrightarrow>
           cycleState rb' ! off = cycleState rb ! off \<and> ids rb' ! off = ids rb ! off \<and>
           prices rb' ! off = prices rb ! off \<and> qtys rb' ! off = qtys rb ! off))"

text \<open>\<open>drained j t k s s'\<close>: the loop of \<^verbatim>\<open>DequeueBatch\<close>, entered in \<open>s\<close> with the
  reserved tail \<open>t\<close>, has copied out and released the first \<open>k\<close> slots.\<close>

definition drained ::
  "nat \<Rightarrow> uint64 \<Rightarrow> nat \<Rightarrow> RingBuffer \<times> batch \<Rightarrow> RingBuffer \<times> batch \<Rightarrow> bool" where
  "drained j t k s s' \<longleftrightarrow>
     (case (s, s') of ((rb, a, p, q), (rb', a', p', q')) \<Rightarrow>
        wf j rb' \<and> writeIndex rb' = writeIndex rb \<and> readIndex rb' = readIndex rb \<and>
        ids rb' = ids rb \<and> prices rb' = prices rb \<and> qtys rb' = qtys rb \<and>
        length a' = length a \<and> length p' = length p \<and> length q' = length q \<and>
        (\<forall>i < k.
           cycleState rb' ! slot j (t + of_nat i) = t + of_nat i + 2 ^ j \<and>
           a' ! i = ids rb ! slot j (t + of_nat i) \<and>
           p' ! i = prices rb ! slot j (t + of_nat i) \<and>
           q' ! i = qtys rb ! slot j (t + of_nat i)) \<and>
        (\<forall>i. k \<le> i \<longrightarrow> a' ! i = a ! i \<and> p' ! i = p ! i \<and> q' ! i = q ! i) \<and>
        (\<forall>off. (\<forall>i < k. off \<noteq> slot j (t + of_nat i)) \<longrightarrow>
           cycleState rb' ! off = cycleState rb ! off))"

section \<open>Facts about slots and cursors\<close>

lemma unat_and_mask_rb: "unat (c AND (2 ^ j - 1 :: uint64)) = unat c mod 2 ^ j"
proof -
  have "c AND (2 ^ j - 1) = take_bit j c"
    by (simp add: take_bit_eq_mask mask_eq_exp_minus_1)
  moreover have "unat (take_bit j c) = take_bit j (unat c)"
    by (rule unsigned_take_bit_eq)
  ultimately show ?thesis
    by (simp add: take_bit_eq_mod [where 'a = nat])
qed

lemma slot_less: "slot j c < 2 ^ j"
  by (simp add: slot_def)

lemma slot_add: "j \<le> 64 \<Longrightarrow> slot j (t + of_nat i) = (unat t + i) mod 2 ^ j"
proof -
  assume j: "j \<le> 64"
  have d: "(2::nat) ^ j dvd 2 ^ 64" using j by (rule le_imp_power_dvd)
  have "unat (t + of_nat i :: uint64) = (unat t + i) mod 2 ^ 64"
    by (simp add: unat_word_ariths unat_of_nat mod_simps)
  then have "slot j (t + of_nat i) = ((unat t + i) mod 2 ^ 64) mod 2 ^ j"
    by (simp add: slot_def)
  also have "\<dots> = (unat t + i) mod 2 ^ j"
    using d by (rule mod_mod_cancel)
  finally show ?thesis .
qed

lemma slot_inj_le:
  assumes "i \<le> k" "k < 2 ^ j" "(a + i) mod 2 ^ j = (a + k) mod (2 ^ j :: nat)"
  shows "i = k"
proof -
  have "(a + k) mod 2 ^ j = (a + i) mod 2 ^ j" using assms(3) by simp
  moreover have "a + i \<le> a + k" using assms(1) by simp
  ultimately have "(2::nat) ^ j dvd (a + k) - (a + i)"
    using mod_eq_dvd_iff_nat [of "a + i" "a + k" "2 ^ j"] by blast
  then have "(2::nat) ^ j dvd k - i" by simp
  moreover have "k - i < 2 ^ j" using assms(2) by simp
  ultimately have "k - i = 0" by (meson dvd_imp_le not_less zero_less_iff_neq_zero)
  then show ?thesis using assms(1) by simp
qed

lemma slot_inj:
  assumes "i < 2 ^ j" "k < 2 ^ j" "(a + i) mod 2 ^ j = (a + k) mod (2 ^ j :: nat)"
  shows "i = k"
proof (cases "i \<le> k")
  case True then show ?thesis using assms slot_inj_le by blast
next
  case False
  then have "k \<le> i" by simp
  then show ?thesis using assms slot_inj_le [of k i j a] by simp
qed

lemma sint_neg_lap:
  assumes "1 \<le> j" "j < 64" shows "sint (1 - 2 ^ j :: uint64) < 0"
proof -
  have hi: "(2::int) ^ j \<le> 2 ^ 63" using assms by (intro power_increasing) auto
  have lo: "(2::int) ^ 1 \<le> 2 ^ j" using assms by (intro power_increasing) auto
  have s: "sint (1 - 2 ^ j :: uint64) = (1 - 2 ^ j + 2 ^ 63) mod 2 ^ 64 - 2 ^ 63"
    using int_word_sint [where 'a = 64, of "1 - 2 ^ j"] by simp
  have "0 \<le> (1 - 2 ^ j + 2 ^ 63 :: int)" "(1 - 2 ^ j + 2 ^ 63 :: int) < 2 ^ 64"
    using hi lo by simp_all
  then have "(1 - 2 ^ j + 2 ^ 63) mod 2 ^ 64 = (1 - 2 ^ j + 2 ^ 63 :: int)"
    by (rule mod_pos_pos_trivial)
  then show ?thesis using s lo by simp
qed

lemma unat_of_nat_cap: 
  assumes "j < 64" "n \<le> 2 ^ j" shows "unat (of_nat n :: uint64) = n"
proof -
  have "(2::nat) ^ j < 2 ^ 64" using assms by (intro power_strict_increasing) auto
  then show ?thesis using assms by (simp add: unat_of_nat)
qed

section \<open>What each call computes on a well-formed buffer\<close>

text \<open>On a buffer whose slices have the length of its power-of-two capacity no index
  leaves its slice, and every loop either returns in its first round or spins forever.\<close>

lemma slot_of_wf: "wf j rb \<Longrightarrow> slot_of rb c = slot j c"
  by (simp add: wf_def slot_of_def slot_def unat_and_mask_rb)

lemma Enqueue_spin:
  assumes "index (cycleState rb) (unat (writeIndex rb AND mask_rb rb)) = Inr c"
    and "c \<noteq> writeIndex rb" and "\<not> sint (c - writeIndex rb) < 0"
  shows "Enqueue rb a p q = None"
proof (rule ccontr)
  define S where "S r \<longleftrightarrow> (\<exists>c. index (cycleState r) (unat (writeIndex r AND mask_rb r)) = Inr c
     \<and> c \<noteq> writeIndex r \<and> \<not> sint (c - writeIndex r) < 0)" for r :: RingBuffer
  assume "Enqueue rb a p q \<noteq> None"
  then obtain y where "Enqueue rb a p q = Some y" by auto
  then have "\<not> S rb"
    by (rule Enqueue.raw_induct [rotated, where P = "\<lambda>r _ _ _ _. \<not> S r"])
       (fastforce simp: S_def Let_def split: if_splits)
  with assms show False by (auto simp: S_def)
qed

lemma Enqueue_wf:
  assumes "wf j rb"
  shows "Enqueue rb a p q =
    (let h = writeIndex rb; off = slot j h; c = cycleState rb ! off
     in if c = h then
          Some (Inr (True, rb\<lparr>writeIndex := h + 1, cycleState := (cycleState rb)[off := h + 1],
                   ids := (ids rb)[off := a], prices := (prices rb)[off := p],
                   qtys := (qtys rb)[off := q]\<rparr>))
        else if sint (c - h) < 0 then Some (Inr (False, rb))
        else None)"
proof -
  let ?h = "writeIndex rb"
  have off: "unat (?h AND mask_rb rb) = slot j ?h"
    using assms slot_of_wf [of j rb ?h] by (simp add: slot_of_def)
  have len: "slot j ?h < length (cycleState rb)" "slot j ?h < length (ids rb)"
    "slot j ?h < length (prices rb)" "slot j ?h < length (qtys rb)"
    using assms by (simp_all add: wf_def slot_less)
  have ix: "index (cycleState rb) (unat (?h AND mask_rb rb)) = Inr (cycleState rb ! slot j ?h)"
    using len off by (simp add: index_def)
  have ix': "index (cycleState rb) (slot j ?h) = Inr (cycleState rb ! slot j ?h)"
    using len by (simp add: index_def)
  consider (ready) "cycleState rb ! slot j ?h = ?h"
    | (full) "cycleState rb ! slot j ?h \<noteq> ?h" "sint (cycleState rb ! slot j ?h - ?h) < 0"
    | (spin) "cycleState rb ! slot j ?h \<noteq> ?h" "\<not> sint (cycleState rb ! slot j ?h - ?h) < 0"
    by blast
  then show ?thesis
  proof cases
    case ready
    then show ?thesis
      using len off 
      by (subst Enqueue.simps) (simp add: ix' Let_def Enqueue_publish_def bind_result_def store_def)
  next
    case full
    then show ?thesis
      by (subst Enqueue.simps) (simp add: ix Let_def)
  next
    case spin
    then show ?thesis
      using Enqueue_spin [OF ix] by (simp add: Let_def)
  qed
qed

lemma Dequeue_spin:
  assumes "index (cycleState rb) (unat (readIndex rb AND mask_rb rb)) = Inr c"
    and "c \<noteq> readIndex rb + 1" and "\<not> sint (c - (readIndex rb + 1)) < 0"
  shows "Dequeue rb out = None"
proof (rule ccontr)
  define S where "S r \<longleftrightarrow> (\<exists>c. index (cycleState r) (unat (readIndex r AND mask_rb r)) = Inr c
     \<and> c \<noteq> readIndex r + 1 \<and> \<not> sint (c - (readIndex r + 1)) < 0)" for r :: RingBuffer
  assume "Dequeue rb out \<noteq> None"
  then obtain y where "Dequeue rb out = Some y" by auto
  then have "\<not> S rb"
    by (rule Dequeue.raw_induct [rotated, where P = "\<lambda>r _ _. \<not> S r"])
       (fastforce simp: S_def Let_def split: if_splits)
  with assms show False by (auto simp: S_def)
qed

lemma Dequeue_wf:
  assumes "wf j rb"
  shows "Dequeue rb out =
    (let t = readIndex rb; off = slot j t; c = cycleState rb ! off
     in if c = t + 1 then
          Some (Inr (True, (ids rb ! off, prices rb ! off, qtys rb ! off),
                   rb\<lparr>readIndex := t + 1, cycleState := (cycleState rb)[off := t + 2 ^ j]\<rparr>))
        else if sint (c - (t + 1)) < 0 then Some (Inr (False, out, rb))
        else None)"
proof -
  let ?t = "readIndex rb"
  have off: "unat (?t AND mask_rb rb) = slot j ?t"
    using assms slot_of_wf [of j rb ?t] by (simp add: slot_of_def)
  have len: "slot j ?t < length (cycleState rb)" "slot j ?t < length (ids rb)"
    "slot j ?t < length (prices rb)" "slot j ?t < length (qtys rb)"
    using assms by (simp_all add: wf_def slot_less)
  have cap: "capacity rb = 2 ^ j" using assms by (simp add: wf_def)
  have ix: "index (cycleState rb) (unat (?t AND mask_rb rb)) = Inr (cycleState rb ! slot j ?t)"
    using len off by (simp add: index_def)
  have ix': "index (cycleState rb) (slot j ?t) = Inr (cycleState rb ! slot j ?t)"
    using len by (simp add: index_def)
  consider (ready) "cycleState rb ! slot j ?t = ?t + 1"
    | (empty) "cycleState rb ! slot j ?t \<noteq> ?t + 1" "sint (cycleState rb ! slot j ?t - (?t + 1)) < 0"
    | (spin) "cycleState rb ! slot j ?t \<noteq> ?t + 1" "\<not> sint (cycleState rb ! slot j ?t - (?t + 1)) < 0"
    by blast
  then show ?thesis
  proof cases
    case ready
    then show ?thesis
      using len off cap
      by (subst Dequeue.simps)
         (simp add: ix' Let_def Dequeue_read_def bind_result_def store_def index_def)
  next
    case empty
    then show ?thesis
      by (subst Dequeue.simps) (simp add: ix Let_def)
  next
    case spin
    then show ?thesis
      using Dequeue_spin [OF ix] by (simp add: Let_def)
  qed
qed

lemma await_cycle_spin:
  assumes "index (cycleState rb) (unat off) = Inr c" and "c \<noteq> ci + 1"
  shows "await_cycle rb off ci = None"
proof (rule ccontr)
  define S where "S r off ci \<longleftrightarrow> (\<exists>c. index (cycleState r) (unat off) = Inr c \<and> c \<noteq> ci + 1)"
    for r :: RingBuffer and off ci :: uint64
  assume "await_cycle rb off ci \<noteq> None"
  then obtain y where "await_cycle rb off ci = Some y" by auto
  then have "\<not> S rb off ci"
    by (rule await_cycle.raw_induct [rotated, where P = "\<lambda>r off ci _. \<not> S r off ci"])
       (fastforce simp: S_def split: if_splits)
  with assms show False by (auto simp: S_def)
qed

lemma await_cycle_eq:
  "await_cycle rb off ci =
     (case index (cycleState rb) (unat off) of
        Inl e \<Rightarrow> Some (Inl e)
      | Inr c \<Rightarrow> if c = ci + 1 then Some (Inr ()) else None)"
proof (cases "index (cycleState rb) (unat off)")
  case (Inl e)
  then show ?thesis by (subst await_cycle.simps) simp
next
  case (Inr c)
  show ?thesis
  proof (cases "c = ci + 1")
    case True
    with Inr show ?thesis by (subst await_cycle.simps) simp
  next
    case False
    with Inr show ?thesis using await_cycle_spin [OF Inr False] by simp
  qed
qed

lemma EnqueueBatch_spin:
  assumes "index (cycleState rb) (unat (writeIndex rb AND mask_rb rb)) = Inr c"
    and "c \<noteq> writeIndex rb" and "\<not> sint (c - writeIndex rb) < 0"
  shows "EnqueueBatch rb a p q = None"
proof (rule ccontr)
  define S where "S r \<longleftrightarrow> (\<exists>c. index (cycleState r) (unat (writeIndex r AND mask_rb r)) = Inr c
     \<and> c \<noteq> writeIndex r \<and> \<not> sint (c - writeIndex r) < 0)" for r :: RingBuffer
  assume "EnqueueBatch rb a p q \<noteq> None"
  then obtain y where "EnqueueBatch rb a p q = Some y" by auto
  then have "\<not> S rb"
    by (rule EnqueueBatch.raw_induct [rotated, where P = "\<lambda>r _ _ _ _. \<not> S r"])
       (fastforce simp: S_def Let_def split: if_splits)
  with assms show False by (auto simp: S_def)
qed

lemma EnqueueBatch_wf:
  assumes "wf j rb"
  shows "EnqueueBatch rb a p q =
    (let count = (of_nat (length a) :: uint64); h = writeIndex rb; c = cycleState rb ! slot j h
     in if sint (c - h) < 0 then Some (Inr (0, rb))
        else if c = h then
          (if sint (cycleState rb ! slot j (h + count - 1) - (h + count - 1)) < 0
           then Some (Inr (0, rb))
           else map_outcome (\<lambda>rb'. (count, rb'))
                  (for_each (EnqueueBatch_copy h (a, p, q)) [0..<unat count]
                     (rb\<lparr>writeIndex := h + count\<rparr>)))
        else None)"
proof -
  let ?h = "writeIndex rb"
  have off: "\<And>c. unat (c AND mask_rb rb) = slot j c"
    using assms slot_of_wf [of j rb] by (simp add: slot_of_def)
  have len: "\<And>c. slot j c < length (cycleState rb)"
    using assms by (simp_all add: wf_def slot_less)
  have ix: "\<And>c. index (cycleState rb) (slot j c) = Inr (cycleState rb ! slot j c)"
    using len by (simp add: index_def)
  consider (spin) "cycleState rb ! slot j ?h \<noteq> ?h" "\<not> sint (cycleState rb ! slot j ?h - ?h) < 0"
    | (other) "cycleState rb ! slot j ?h = ?h \<or> sint (cycleState rb ! slot j ?h - ?h) < 0"
    by blast
  then show ?thesis
  proof cases
    case spin
    have "index (cycleState rb) (unat (?h AND mask_rb rb)) = Inr (cycleState rb ! slot j ?h)"
      by (simp add: off ix)
    from EnqueueBatch_spin [OF this spin] spin show ?thesis by (simp add: Let_def)
  next
    case other
    then show ?thesis
      by (subst EnqueueBatch.simps) (auto simp add: off ix Let_def)
  qed
qed

lemma DequeueBatch_wf:
  assumes "wf j rb"
  shows "DequeueBatch rb a p q =
    (let limit = (of_nat (length a) :: uint64); t = readIndex rb
     in if limit = 0 then Some (Inr (0, (a, p, q), rb))
        else if sint (cycleState rb ! slot j t - (t + 1)) < 0 then Some (Inr (0, (a, p, q), rb))
        else if sint (cycleState rb ! slot j (t + limit - 1) - (t + limit)) < 0
          then Some (Inr (0, (a, p, q), rb))
        else map_outcome (\<lambda>(rb', out). (limit, out, rb'))
               (for_each (DequeueBatch_copy t) [0..<unat limit]
                  (rb\<lparr>readIndex := t + limit\<rparr>, a, p, q)))"
proof -
  have off: "\<And>c. unat (c AND mask_rb rb) = slot j c"
    using assms slot_of_wf [of j rb] by (simp add: slot_of_def)
  have len: "\<And>c. slot j c < length (cycleState rb)"
    using assms by (simp_all add: wf_def slot_less)
  have ix: "\<And>c. index (cycleState rb) (slot j c) = Inr (cycleState rb ! slot j c)"
    using len by (simp add: index_def)
  show ?thesis
    by (simp add: DequeueBatch_def off ix Let_def)
qed

lemma EnqueueBatch_copy_wf:
  assumes "wf j rb"
  shows "EnqueueBatch_copy h (a, p, q) i rb =
    Some (if i < length a \<and> i < length p \<and> i < length q then
       Inr (rb\<lparr>cycleState := (cycleState rb)[slot j (h + of_nat i) := h + of_nat i + 1],
              ids := (ids rb)[slot j (h + of_nat i) := a ! i],
              prices := (prices rb)[slot j (h + of_nat i) := p ! i],
              qtys := (qtys rb)[slot j (h + of_nat i) := q ! i]\<rparr>)
     else Inl IndexOutOfRange)"
proof -
  have off: "\<And>c. unat (c AND mask_rb rb) = slot j c"
    using assms slot_of_wf [of j rb] by (simp add: slot_of_def)
  have len: "\<And>c. slot j c < length (cycleState rb)" "\<And>c. slot j c < length (ids rb)"
    "\<And>c. slot j c < length (prices rb)" "\<And>c. slot j c < length (qtys rb)"
    using assms by (simp_all add: wf_def slot_less)
  show ?thesis
    by (simp add: EnqueueBatch_copy_def off len Let_def bind_result_def index_def store_def)
qed

lemma DequeueBatch_copy_wf:
  assumes "wf j rb"
  shows "DequeueBatch_copy t i (rb, a, p, q) =
    (let ci = t + of_nat i; off = slot j ci
     in if cycleState rb ! off \<noteq> ci + 1 then None
        else Some (if i < length a \<and> i < length p \<and> i < length q then
               Inr (rb\<lparr>cycleState := (cycleState rb)[off := ci + 2 ^ j]\<rparr>,
                    a[i := ids rb ! off], p[i := prices rb ! off], q[i := qtys rb ! off])
             else Inl IndexOutOfRange))"
proof -
  have off: "\<And>c. unat (c AND mask_rb rb) = slot j c"
    using assms slot_of_wf [of j rb] by (simp add: slot_of_def)
  have len: "\<And>c. slot j c < length (cycleState rb)" "\<And>c. slot j c < length (ids rb)"
    "\<And>c. slot j c < length (prices rb)" "\<And>c. slot j c < length (qtys rb)"
    using assms by (simp_all add: wf_def slot_less)
  have cap: "capacity rb = 2 ^ j" using assms by (simp add: wf_def)
  show ?thesis
    by (simp add: DequeueBatch_copy_def await_cycle_eq off len cap Let_def bind_result_def
        index_def store_def)
qed

lemma slot_eq_iff:
  assumes "j \<le> 64" "i < 2 ^ j" "k < 2 ^ j"
  shows "slot j (t + of_nat i) = slot j (t + of_nat k) \<longleftrightarrow> i = k"
  using assms slot_inj [of i j k "unat t"] by (auto simp: slot_add)

lemma slot_lap:
  assumes "j \<le> 64" shows "slot j (t + of_nat (i + 2 ^ j)) = slot j (t + of_nat i)"
proof -
  have "slot j (t + of_nat (i + 2 ^ j)) = (unat t + (i + 2 ^ j)) mod 2 ^ j"
    using assms by (rule slot_add)
  also have "\<dots> = (unat t + i) mod 2 ^ j"
    by (simp add: add.assoc [symmetric])
  also have "\<dots> = slot j (t + of_nat i)"
    using assms by (rule slot_add [symmetric])
  finally show ?thesis .
qed

lemma laps_nth:
  "laps j t m cs \<Longrightarrow> i < 2 ^ j \<Longrightarrow>
     cs ! slot j (t + of_nat i) = t + of_nat i + (if i < m then 1 else 0)"
  by (simp add: laps_def)

lemma laps_produce:
  assumes j: "j \<le> 64" and len: "length cs = 2 ^ j" and l: "laps j t m cs" and m: "m < 2 ^ j"
  shows "laps j t (Suc m) (cs[slot j (t + of_nat m) := t + of_nat m + 1])"
  unfolding laps_def
proof (intro allI impI)
  fix i :: nat
  assume i: "i < 2 ^ j"
  show "cs[slot j (t + of_nat m) := t + of_nat m + 1] ! slot j (t + of_nat i) =
        t + of_nat i + (if i < Suc m then 1 else 0)"
  proof (cases "i = m")
    case True
    then show ?thesis using len by (simp add: slot_less)
  next
    case False
    then have "slot j (t + of_nat m) \<noteq> slot j (t + of_nat i)"
      using slot_eq_iff [OF j m i] by simp
    then show ?thesis using laps_nth [OF l i] False by simp
  qed
qed

lemma laps_consume:
  assumes j: "j < 64" and len: "length cs = 2 ^ j" and l: "laps j t m cs"
    and m: "0 < m" "m \<le> 2 ^ j"
  shows "laps j (t + 1) (m - 1) (cs[slot j t := t + 2 ^ j])"
  unfolding laps_def
proof (intro allI impI)
  fix i :: nat
  assume i: "i < 2 ^ j"
  have j': "j \<le> 64" using j by simp
  show "cs[slot j t := t + 2 ^ j] ! slot j (t + 1 + of_nat i) =
        t + 1 + of_nat i + (if i < m - 1 then 1 else 0)"
  proof (cases "Suc i < 2 ^ j")
    case True
    have neq: "slot j t \<noteq> slot j (t + of_nat (Suc i))"
      using slot_eq_iff [OF j' _ True, of 0 t] by simp
    have e: "t + 1 + of_nat i = t + of_nat (Suc i)" by simp
    have "cs[slot j t := t + 2 ^ j] ! slot j (t + of_nat (Suc i)) =
          cs ! slot j (t + of_nat (Suc i))"
      using neq by (rule nth_list_update_neq)
    also have "\<dots> = t + of_nat (Suc i) + (if Suc i < m then 1 else 0)"
      using l True by (rule laps_nth)
    also have "\<dots> = t + 1 + of_nat i + (if i < m - 1 then 1 else 0)"
      using m by auto
    finally show ?thesis unfolding e .
  next
    case False
    then have s: "Suc i = 2 ^ j" using i by simp
    have e: "t + 1 + of_nat i = t + of_nat (0 + 2 ^ j)"
      unfolding s [symmetric] by simp
    have "slot j (t + of_nat (0 + 2 ^ j)) = slot j (t + of_nat 0)"
      using j' by (rule slot_lap)
    then have sl: "slot j (t + of_nat (0 + 2 ^ j)) = slot j t" by simp
    have upd: "cs[slot j t := t + 2 ^ j] ! slot j t = t + 2 ^ j"
      using len by (simp add: slot_less)
    have "\<not> i < m - 1" using s m by linarith
    then have "t + 1 + of_nat i + (if i < m - 1 then 1 else 0) = t + 1 + of_nat i"
      by simp
    also have "\<dots> = t + of_nat (0 + 2 ^ j)" by (rule e)
    also have "\<dots> = t + 2 ^ j" by simp
    finally have v: "t + 1 + of_nat i + (if i < m - 1 then 1 else 0) = t + 2 ^ j" .
    have "cs[slot j t := t + 2 ^ j] ! slot j (t + 1 + of_nat i) = t + 2 ^ j"
      unfolding e sl by (rule upd)
    then show ?thesis unfolding v .
  qed
qed

section \<open>Loops and programs\<close>

lemma map_outcome_simps [simp]:
  "map_outcome f None = None"
  "map_outcome f (Some (Inl e)) = Some (Inl e)"
  "map_outcome f (Some (Inr x)) = Some (Inr (f x))"
  by (simp_all add: map_outcome_def)

lemma map_outcome_eq_Inr:
  "map_outcome f m = Some (Inr y) \<longleftrightarrow> (\<exists>x. m = Some (Inr x) \<and> y = f x)"
proof (cases m)
  case None
  then show ?thesis by simp
next
  case (Some r)
  then show ?thesis by (cases r) auto
qed

lemma for_each_append:
  "for_each body (xs @ ys) s =
     (case for_each body xs s of
        None \<Rightarrow> None
      | Some (Inl e) \<Rightarrow> Some (Inl e)
      | Some (Inr s') \<Rightarrow> for_each body ys s')"
  by (induction xs arbitrary: s) (auto split: option.splits sum.splits)

lemma for_each_upt_total:
  assumes "P 0 s"
    and "\<And>i s. i < n \<Longrightarrow> P i s \<Longrightarrow> \<exists>s'. body i s = Some (Inr s') \<and> P (Suc i) s'"
  shows "\<exists>s'. for_each body [0..<n] s = Some (Inr s') \<and> P n s'"
  using assms(2)
proof (induction n)
  case 0
  then show ?case using assms(1) by simp
next
  case (Suc n)
  have "\<exists>s'. for_each body [0..<n] s = Some (Inr s') \<and> P n s'"
    by (rule Suc.IH) (simp add: Suc.prems)
  then obtain s1 where s1: "for_each body [0..<n] s = Some (Inr s1)" "P n s1"
    by blast
  from Suc.prems [of n s1] s1 obtain s2 where "body n s1 = Some (Inr s2)" "P (Suc n) s2"
    by auto
  with s1 show ?case by (simp add: for_each_append)
qed

lemma for_each_upt_panic:
  assumes "P 0 s" and "k < n"
    and "\<And>i s. i < k \<Longrightarrow> P i s \<Longrightarrow> \<exists>s'. body i s = Some (Inr s') \<and> P (Suc i) s'"
    and "\<And>s. P k s \<Longrightarrow> body k s = Some (Inl e)"
  shows "for_each body [0..<n] s = Some (Inl e)"
proof -
  obtain s1 where s1: "for_each body [0..<k] s = Some (Inr s1)" "P k s1"
    using for_each_upt_total [of P s k body, OF assms(1,3)] by blast
  have "[0..<k + (n - k)] = [0..<k] @ [k..<k + (n - k)]"
    by (rule upt_add_eq_append) simp
  moreover have "[k..<n] = k # [Suc k..<n]"
    using assms(2) by (rule upt_conv_Cons)
  ultimately have "[0..<n] = [0..<k] @ k # [Suc k..<n]"
    using assms(2) by simp
  then show ?thesis using s1 assms(4) [OF s1(2)] by (simp add: for_each_append)
qed

lemma for_each_preserves:
  assumes "I s" and "for_each body xs s = Some (Inr s')"
    and "\<And>i s s'. I s \<Longrightarrow> body i s = Some (Inr s') \<Longrightarrow> I s'"
  shows "I s'"
  using assms(1,2)
proof (induction xs arbitrary: s)
  case Nil
  then show ?case by simp
next
  case (Cons i xs)
  show ?case
  proof (cases "body i s")
    case None
    with Cons.prems(2) show ?thesis by simp
  next
    case (Some r)
    show ?thesis
    proof (cases r)
      case (Inl e)
      with Some Cons.prems(2) show ?thesis by simp
    next
      case (Inr s1)
      with Some Cons.prems(2) have "for_each body xs s1 = Some (Inr s')" by simp
      moreover have "I s1" using assms(3) [OF Cons.prems(1)] Some Inr by simp
      ultimately show ?thesis by (rule Cons.IH [rotated])
    qed
  qed
qed

lemma run_Cons_Inr:
  assumes "run rb (c # cs) = Some (Inr (rs, rb'))"
  obtains r rb1 rs1 where "exec rb c = Some (Inr (r, rb1))"
    and "run rb1 cs = Some (Inr (rs1, rb'))" and "rs = r # rs1"
proof (cases "exec rb c")
  case None
  with assms show ?thesis by simp
next
  case (Some x)
  show ?thesis
  proof (cases x)
    case (Inl e)
    with Some assms show ?thesis by simp
  next
    case (Inr y)
    obtain r rb1 where y: "y = (r, rb1)" by (cases y)
    with Some Inr assms have "map_outcome (\<lambda>(rs, rb''). (r # rs, rb'')) (run rb1 cs) = Some (Inr (rs, rb'))"
      by simp
    then obtain z where z: "run rb1 cs = Some (Inr z)" "(rs, rb') = (\<lambda>(rs, rb''). (r # rs, rb'')) z"
      unfolding map_outcome_eq_Inr by blast
    obtain rs1 rb2 where "z = (rs1, rb2)" by (cases z)
    with z have "run rb1 cs = Some (Inr (rs1, rb'))" "rs = r # rs1" by simp_all
    with Some Inr y that show ?thesis by simp
  qed
qed

lemma run_preserves:
  assumes "I rb" and "run rb cs = Some (Inr (rs, rb'))"
    and "\<And>rb c r rb'. I rb \<Longrightarrow> c \<in> set cs \<Longrightarrow> exec rb c = Some (Inr (r, rb')) \<Longrightarrow> I rb'"
  shows "I rb'"
  using assms
proof (induction cs arbitrary: rb rs)
  case Nil
  then show ?case by simp
next
  case (Cons c cs)
  from Cons.prems(2) obtain r rb1 rs1 where
    s: "exec rb c = Some (Inr (r, rb1))" "run rb1 cs = Some (Inr (rs1, rb'))"
    by (rule run_Cons_Inr)
  have a: "I rb1" using Cons.prems(3) [OF Cons.prems(1) _ s(1)] by simp
  have b: "\<And>rb c' r rb'. I rb \<Longrightarrow> c' \<in> set cs \<Longrightarrow> exec rb c' = Some (Inr (r, rb')) \<Longrightarrow> I rb'"
    using Cons.prems(3) by (meson list.set_intros(2))
  show ?case using a s(2) b by (rule Cons.IH)
qed

section \<open>Construction\<close>

lemma fold_update_upt:
  "n \<le> length xs \<Longrightarrow> fold (\<lambda>i cs. cs[i := f i]) [0..<n] xs = map f [0..<n] @ drop n xs"
proof (induction n)
  case 0
  then show ?case by simp
next
  case (Suc n)
  then have n: "n < length xs" by simp
  have "(map f [0..<n] @ drop n xs)[n := f n] = map f [0..<n] @ (drop n xs)[0 := f n]"
    by (simp add: list_update_append)
  also have "(drop n xs)[0 := f n] = f n # drop (Suc n) xs"
    using n by (metis Cons_nth_drop_Suc list_update_code(2))
  finally show ?case using Suc by simp
qed

lemma Newbuffer_eq:
  "Newbuffer max_len cap =
     (if make_panics max_len cap then Inl MakesliceLenOutOfRange
      else Inr \<lparr>capacity = cap, mask_rb = cap - 1, writeIndex = 0, readIndex = 0,
                cycleState = map of_nat [0..<unat cap], ids = replicate (unat cap) 0,
                prices = replicate (unat cap) 0, qtys = replicate (unat cap) 0\<rparr>)"
  by (simp add: Newbuffer_def fold_update_upt)

lemma Newbuffer_Inr:
  assumes "Newbuffer max_len cap = Inr rb"
  shows "rb = \<lparr>capacity = cap, mask_rb = cap - 1, writeIndex = 0, readIndex = 0,
               cycleState = map of_nat [0..<unat cap], ids = replicate (unat cap) 0,
               prices = replicate (unat cap) 0, qtys = replicate (unat cap) 0\<rparr>"
  using assms by (simp add: Newbuffer_eq split: if_splits)

lemma program_Inr:
  assumes "program max_len cap cs = Some (Inr (rs, rb))"
  obtains rb0 where "Newbuffer max_len cap = Inr rb0" and "run rb0 cs = Some (Inr (rs, rb))"
  using assms by (cases "Newbuffer max_len cap") (simp_all add: program_def)

text \<open>
  Claim C1 says that \<^verbatim>\<open>Newbuffer\<close> fails with \<open>InvalidCapacity\<close> for a capacity
  that is zero or not a power of two. The code has no such check and no error result:
  \<^verbatim>\<open>Newbuffer(3)\<close> returns a buffer with mask 2, and that buffer takes a record and
  gives it back. The limit \<open>2 ^ 45\<close> is the one of a 64-bit Linux, where a slice has at
  most \<open>2 ^ 48\<close> bytes.
\<close>

theorem Newbuffer_3_returns_usable_buffer:
  "Newbuffer (2 ^ 45) 3 =
     Inr \<lparr>capacity = 3, mask_rb = 2, writeIndex = 0, readIndex = 0,
          cycleState = [0, 1, 2], ids = [0, 0, 0], prices = [0, 0, 0], qtys = [0, 0, 0]\<rparr> \<and>
   program (2 ^ 45) 3 [OpEnqueue 7 price_100 1, OpDequeue (0, 0, 0)] =
     Some (Inr ([RetEnqueue True, RetDequeue True (7, price_100, 1)],
       \<lparr>capacity = 3, mask_rb = 2, writeIndex = 1, readIndex = 1,
        cycleState = [3, 1, 2], ids = [7, 0, 0], prices = [price_100, 0, 0],
        qtys = [1, 0, 0]\<rparr>))"
  by code_simp

text \<open>
  Claim C1, amended: \<^verbatim>\<open>Newbuffer\<close> does not test whether the capacity is a power of
  two and has no error result. What happens depends only on whether \<^verbatim>\<open>make\<close> takes
  the capacity as a length. A capacity of \<open>2 ^ 63\<close> or more, or one above the largest
  length \<open>max_len\<close> that the platform allows for a slice of 8-byte elements, ends the
  call with the run-time panic \<^verbatim>\<open>makeslice: len out of range\<close>. For every other
  capacity \<open>cap\<close>, zero and non-powers of two included, the call returns a buffer with
  that capacity, the mask \<open>cap - 1\<close> (wrapping to all ones for 0), both cursors 0,
  payload slices of \<open>cap\<close> zeroes and \<open>cycleState[i] = i\<close> for every \<open>i < cap\<close>.
\<close>

theorem Newbuffer_validates_nothing:
  "Newbuffer max_len cap =
     (if 2 ^ 63 \<le> cap \<or> max_len < cap then Inl MakesliceLenOutOfRange
      else Inr \<lparr>capacity = cap, mask_rb = cap - 1, writeIndex = 0, readIndex = 0,
                cycleState = map of_nat [0..<unat cap], ids = replicate (unat cap) 0,
                prices = replicate (unat cap) 0, qtys = replicate (unat cap) 0\<rparr>)"
  by (simp add: Newbuffer_def make_panics_def fold_update_upt)

section \<open>Scenario S1\<close>

text \<open>
  Claim C6: on a fresh buffer of capacity 4, four enqueues of the records
  (1,100.0,1) .. (4,100.0,1) return true and a fifth returns false; four dequeues then
  return true with the ids 1, 2, 3, 4 in this order, and a fifth returns false, leaving
  its out-parameters as they were.
\<close>

theorem scenario_S1_capacity_4:
  "program (2 ^ 45) 4
     [OpEnqueue 1 price_100 1, OpEnqueue 2 price_100 1, OpEnqueue 3 price_100 1,
      OpEnqueue 4 price_100 1, OpEnqueue 5 price_100 1,
      OpDequeue (0, 0, 0), OpDequeue (0, 0, 0), OpDequeue (0, 0, 0), OpDequeue (0, 0, 0),
      OpDequeue (0, 0, 0)] =
   Some (Inr
     ([RetEnqueue True, RetEnqueue True, RetEnqueue True, RetEnqueue True, RetEnqueue False,
       RetDequeue True (1, price_100, 1), RetDequeue True (2, price_100, 1),
       RetDequeue True (3, price_100, 1), RetDequeue True (4, price_100, 1),
       RetDequeue False (0, 0, 0)],
      \<lparr>capacity = 4, mask_rb = 3, writeIndex = 4, readIndex = 4,
       cycleState = [4, 5, 6, 7], ids = [1, 2, 3, 4],
       prices = [price_100, price_100, price_100, price_100], qtys = [1, 1, 1, 1]\<rparr>))"
  by code_simp

section \<open>Well-formedness and the shape of the cycle values\<close>

lemma unat_cap: "j < 64 \<Longrightarrow> unat (2 ^ j :: uint64) = 2 ^ j"
  using unat_of_nat_cap [of j "2 ^ j"] by simp

lemma wf_Newbuffer: "j < 64 \<Longrightarrow> Newbuffer max_len (2 ^ j) = Inr rb \<Longrightarrow> wf j rb"
  by (drule Newbuffer_Inr) (simp add: wf_def unat_cap)

lemma slot_release: "j \<le> 64 \<Longrightarrow> slot j (c + 2 ^ j) = slot j c"
  using slot_lap [of j c 0] by simp

lemma shape_publish:
  assumes "cycle_shape j cs"
  shows "cycle_shape j (cs[slot j c := c + 1])"
  unfolding cycle_shape_def
proof (intro allI impI)
  fix off :: nat
  assume "off < 2 ^ j"
  then show "slot j (cs[slot j c := c + 1] ! off) = off \<or>
             slot j (cs[slot j c := c + 1] ! off - 1) = off"
    using assms
    by (cases "off = slot j c"; cases "off < length cs")
       (auto simp: cycle_shape_def list_update_beyond)
qed

lemma shape_release:
  assumes "cycle_shape j cs" "j \<le> 64"
  shows "cycle_shape j (cs[slot j c := c + 2 ^ j])"
  unfolding cycle_shape_def
proof (intro allI impI)
  fix off :: nat
  assume "off < 2 ^ j"
  then show "slot j (cs[slot j c := c + 2 ^ j] ! off) = off \<or>
             slot j (cs[slot j c := c + 2 ^ j] ! off - 1) = off"
    using assms slot_release [of j c]
    by (cases "off = slot j c"; cases "off < length cs")
       (auto simp: cycle_shape_def list_update_beyond)
qed

lemma shape_Newbuffer:
  "j < 64 \<Longrightarrow> Newbuffer max_len (2 ^ j) = Inr rb \<Longrightarrow> cycle_shape j (cycleState rb)"
proof -
  assume j: "j < 64" and n: "Newbuffer max_len (2 ^ j) = Inr rb"
  have "(2::nat) ^ j < 2 ^ 64" using j by (intro power_strict_increasing) auto
  then have "\<And>off. off < 2 ^ j \<Longrightarrow> slot j (of_nat off) = off"
    by (simp add: slot_def unat_of_nat)
  then show ?thesis using j Newbuffer_Inr [OF n] by (simp add: cycle_shape_def unat_cap)
qed

lemma weak_Enqueue:
  assumes "weak j rb" "Enqueue rb a p q = Some (Inr (ok, rb'))"
  shows "weak j rb'"
proof -
  have wf: "wf j rb" using assms(1) by (simp add: weak_def)
  show ?thesis
    using assms(2) assms(1) shape_publish [of j "cycleState rb" "writeIndex rb"]
    unfolding Enqueue_wf [OF wf]
    by (auto simp: Let_def weak_def wf_def split: if_splits)
qed

lemma weak_Dequeue:
  assumes "weak j rb" "Dequeue rb out = Some (Inr (ok, out', rb'))"
  shows "weak j rb'"
proof -
  have wf: "wf j rb" using assms(1) by (simp add: weak_def)
  then have "j \<le> 64" by (simp add: wf_def)
  then show ?thesis
    using assms(2) assms(1) shape_release [of j "cycleState rb" "readIndex rb"]
    unfolding Dequeue_wf [OF wf]
    by (auto simp: Let_def weak_def wf_def split: if_splits)
qed

lemma weak_EnqueueBatch_copy:
  assumes "weak j rb" "EnqueueBatch_copy h src i rb = Some (Inr rb')"
  shows "weak j rb'"
proof -
  have wf: "wf j rb" using assms(1) by (simp add: weak_def)
  obtain a p q where src: "src = (a, p, q)" by (cases src)
  show ?thesis
    using assms(2) assms(1) shape_publish [of j "cycleState rb" "h + of_nat i"]
    unfolding src EnqueueBatch_copy_wf [OF wf]
    by (auto simp: weak_def wf_def split: if_splits)
qed

lemma weak_EnqueueBatch:
  assumes "weak j rb" "EnqueueBatch rb a p q = Some (Inr (n, rb'))"
  shows "weak j rb'"
proof -
  have wf: "wf j rb" using assms(1) by (simp add: weak_def)
  let ?h = "writeIndex rb" and ?count = "of_nat (length a) :: uint64"
  from assms(2) consider (zero) "rb' = rb"
    | (copied) "for_each (EnqueueBatch_copy ?h (a, p, q)) [0..<unat ?count]
                   (rb\<lparr>writeIndex := ?h + ?count\<rparr>) = Some (Inr rb')"
    unfolding EnqueueBatch_wf [OF wf]
    by (auto simp: Let_def map_outcome_eq_Inr split: if_splits)
  then show ?thesis
  proof cases
    case zero
    then show ?thesis using assms(1) by simp
  next
    case copied
    have "weak j (rb\<lparr>writeIndex := ?h + ?count\<rparr>)"
      using assms(1) by (simp add: weak_def wf_def)
    then show ?thesis using copied
      by (rule for_each_preserves) (rule weak_EnqueueBatch_copy)
  qed
qed

lemma weak_DequeueBatch_copy:
  assumes "weak j (fst s)" "DequeueBatch_copy t i s = Some (Inr s')"
  shows "weak j (fst s')"
proof -
  obtain rb a p q where s: "s = (rb, a, p, q)" by (cases s)
  have wf: "wf j rb" using assms(1) s by (simp add: weak_def)
  then have "j \<le> 64" by (simp add: wf_def)
  then show ?thesis
    using assms(2) assms(1) shape_release [of j "cycleState rb" "t + of_nat i"]
    unfolding s DequeueBatch_copy_wf [OF wf]
    by (auto simp: Let_def weak_def wf_def split: if_splits)
qed

lemma weak_DequeueBatch:
  assumes "weak j rb" "DequeueBatch rb a p q = Some (Inr (n, out, rb'))"
  shows "weak j rb'"
proof -
  have wf: "wf j rb" using assms(1) by (simp add: weak_def)
  let ?t = "readIndex rb" and ?limit = "of_nat (length a) :: uint64"
  from assms(2) consider (zero) "rb' = rb"
    | (copied) "for_each (DequeueBatch_copy ?t) [0..<unat ?limit]
                   (rb\<lparr>readIndex := ?t + ?limit\<rparr>, a, p, q) = Some (Inr (rb', out))"
    unfolding DequeueBatch_wf [OF wf]
    by (auto simp: Let_def map_outcome_eq_Inr split: if_splits)
  then show ?thesis
  proof cases
    case zero
    then show ?thesis using assms(1) by simp
  next
    case copied
    have "weak j (fst (rb\<lparr>readIndex := ?t + ?limit\<rparr>, a, p, q))"
      using assms(1) by (simp add: weak_def wf_def)
    then have "weak j (fst (rb', out))" using copied
      by (rule for_each_preserves [where I = "\<lambda>s. weak j (fst s)"]) (rule weak_DequeueBatch_copy)
    then show ?thesis by simp
  qed
qed

lemma weak_exec:
  assumes "weak j rb" "exec rb c = Some (Inr (r, rb'))"
  shows "weak j rb'"
proof (cases c)
  case (OpEnqueue a p q)
  with assms(2) obtain ok where "Enqueue rb a p q = Some (Inr (ok, rb'))"
    by (auto simp: map_outcome_eq_Inr)
  with assms(1) show ?thesis by (rule weak_Enqueue)
next
  case (OpDequeue out)
  with assms(2) obtain ok out' where "Dequeue rb out = Some (Inr (ok, out', rb'))"
    by (auto simp: map_outcome_eq_Inr)
  with assms(1) show ?thesis by (rule weak_Dequeue)
next
  case (OpEnqueueBatch a p q)
  with assms(2) obtain n where "EnqueueBatch rb a p q = Some (Inr (n, rb'))"
    by (auto simp: map_outcome_eq_Inr)
  with assms(1) show ?thesis by (rule weak_EnqueueBatch)
next
  case (OpDequeueBatch a p q)
  with assms(2) obtain n out where "DequeueBatch rb a p q = Some (Inr (n, out, rb'))"
    by (auto simp: map_outcome_eq_Inr)
  with assms(1) show ?thesis by (rule weak_DequeueBatch)
qed

lemma weak_run:
  assumes "j < 64" "program max_len (2 ^ j) cs = Some (Inr (rs, rb))"
  shows "weak j rb"
proof -
  from assms(2) obtain rb0 where n: "Newbuffer max_len (2 ^ j) = Inr rb0"
    and r: "run rb0 cs = Some (Inr (rs, rb))"
    by (rule program_Inr)
  have "weak j rb0"
    using assms(1) n by (simp add: weak_def wf_Newbuffer shape_Newbuffer)
  then show ?thesis using r by (rule run_preserves) (rule weak_exec)
qed

section \<open>The slot cycle invariant\<close>

text \<open>
  Claim C2: in every state that a sequential program reaches from a buffer built with a
  power-of-two capacity \<open>2 ^ j\<close>, whatever calls it makes, every slot \<open>off\<close> holds
  \<open>k * capacity + off\<close> (empty at round \<open>k\<close>) or \<open>k * capacity + off + 1\<close> (filled at
  round \<open>k\<close>) for some natural number \<open>k\<close>; the filled value is read as the
  \<^verbatim>\<open>uint64\<close> it is stored in. Construction puts \<open>off\<close> into slot \<open>off\<close> and sets
  both cursors to 0.
\<close>

theorem slot_cycle_invariant:
  assumes "j < 64" and "program max_len (2 ^ j) cs = Some (Inr (rs, rb))" and "off < 2 ^ j"
  shows "(\<exists>rb0. Newbuffer max_len (2 ^ j) = Inr rb0 \<and> cycleState rb0 ! off = of_nat off \<and>
               writeIndex rb0 = 0 \<and> readIndex rb0 = 0) \<and>
         capacity rb = 2 ^ j \<and> length (cycleState rb) = 2 ^ j \<and>
         (\<exists>k. unat (cycleState rb ! off) = k * 2 ^ j + off \<or>
              unat (cycleState rb ! off) = (k * 2 ^ j + off + 1) mod 2 ^ 64)"
proof -
  let ?c = "cycleState rb ! off"
  have w: "weak j rb" using assms(1,2) by (rule weak_run)
  then have "slot j ?c = off \<or> slot j (?c - 1) = off"
    using assms(3) by (simp add: weak_def cycle_shape_def)
  then have "\<exists>k. unat ?c = k * 2 ^ j + off \<or> unat ?c = (k * 2 ^ j + off + 1) mod 2 ^ 64"
  proof
    assume "slot j ?c = off"
    then have "unat ?c = (unat ?c div 2 ^ j) * 2 ^ j + off"
      using div_mult_mod_eq [of "unat ?c" "2 ^ j"] by (simp add: slot_def)
    then show ?thesis by blast
  next
    assume "slot j (?c - 1) = off"
    then have "unat (?c - 1) = (unat (?c - 1) div 2 ^ j) * 2 ^ j + off"
      using div_mult_mod_eq [of "unat (?c - 1)" "2 ^ j"] by (simp add: slot_def)
    moreover have "unat ?c = (unat (?c - 1) + 1) mod 2 ^ 64"
      using unat_word_ariths(1) [of "?c - 1" 1] by simp
    ultimately have "unat ?c = ((unat (?c - 1) div 2 ^ j) * 2 ^ j + off + 1) mod 2 ^ 64"
      by simp
    then show ?thesis by blast
  qed
  moreover have "\<exists>rb0. Newbuffer max_len (2 ^ j) = Inr rb0 \<and>
      cycleState rb0 ! off = of_nat off \<and> writeIndex rb0 = 0 \<and> readIndex rb0 = 0"
  proof -
    from assms(2) obtain rb0 where n: "Newbuffer max_len (2 ^ j) = Inr rb0"
      by (rule program_Inr)
    from Newbuffer_Inr [OF n] assms(1,3)
    have "cycleState rb0 ! off = of_nat off \<and> writeIndex rb0 = 0 \<and> readIndex rb0 = 0"
      by (simp add: unat_cap)
    with n show ?thesis by blast
  qed
  ultimately show ?thesis
    using w by (simp add: weak_def wf_def)
qed

theorem slot_cycle_invariant_witness:
  "(2::nat) < 64 \<and>
   program (2 ^ 45) (2 ^ 2)
       [OpEnqueueBatch [1, 2, 3] [price_100, price_100, price_100] [1, 1, 1],
        OpDequeue (0, 0, 0), OpEnqueue 4 price_100 1, OpEnqueue 5 price_100 1] =
     Some (Inr ([RetEnqueueBatch 3, RetDequeue True (1, price_100, 1), RetEnqueue True,
                 RetEnqueue True],
       \<lparr>capacity = 4, mask_rb = 3, writeIndex = 5, readIndex = 1,
        cycleState = [5, 2, 3, 4], ids = [5, 2, 3, 4],
        prices = [price_100, price_100, price_100, price_100], qtys = [1, 1, 1, 1]\<rparr>)) \<and>
   (0::nat) < 2 ^ 2 \<and>
   (\<exists>k. unat ([5, 2, 3, 4 :: uint64] ! 0) = k * 2 ^ 2 + 0 \<or>
        unat ([5, 2, 3, 4 :: uint64] ! 0) = (k * 2 ^ 2 + 0 + 1) mod 2 ^ 64)"
proof -
  have r: "program (2 ^ 45) (2 ^ 2)
       [OpEnqueueBatch [1, 2, 3] [price_100, price_100, price_100] [1, 1, 1],
        OpDequeue (0, 0, 0), OpEnqueue 4 price_100 1, OpEnqueue 5 price_100 1] =
     Some (Inr ([RetEnqueueBatch 3, RetDequeue True (1, price_100, 1), RetEnqueue True,
                 RetEnqueue True],
       \<lparr>capacity = 4, mask_rb = 3, writeIndex = 5, readIndex = 1,
        cycleState = [5, 2, 3, 4], ids = [5, 2, 3, 4],
        prices = [price_100, price_100, price_100, price_100], qtys = [1, 1, 1, 1]\<rparr>))"
    by code_simp
  have j: "(2::nat) < 64" and o: "(0::nat) < 2 ^ 2" by simp_all
  from slot_cycle_invariant [OF j r o] r show ?thesis by simp
qed

section \<open>The lap invariant\<close>

lemma inv_wf: "inv j rb \<Longrightarrow> wf j rb"
  by (simp add: inv_def)

lemma inv_obtain:
  assumes "inv j rb" "0 < j"
  obtains m where "m \<le> 2 ^ j" "writeIndex rb = readIndex rb + of_nat m"
    "laps j (readIndex rb) m (cycleState rb)" "unat (writeIndex rb - readIndex rb) = m"
proof -
  from assms obtain m where m: "m \<le> 2 ^ j" "writeIndex rb = readIndex rb + of_nat m"
    "laps j (readIndex rb) m (cycleState rb)"
    by (auto simp: inv_def)
  have "j < 64" using assms(1) by (simp add: inv_def wf_def)
  then have "unat (of_nat m :: uint64) = m" using m(1) by (rule unat_of_nat_cap)
  then have "unat (writeIndex rb - readIndex rb) = m" using m(2) by simp
  with m that show ?thesis by blast
qed

lemma invI:
  assumes "wf j rb" "0 < j" "m \<le> 2 ^ j" "writeIndex rb = readIndex rb + of_nat m"
    "laps j (readIndex rb) m (cycleState rb)"
  shows "inv j rb"
  using assms by (auto simp: inv_def)

lemma inv_Newbuffer: "j < 64 \<Longrightarrow> Newbuffer max_len (2 ^ j) = Inr rb \<Longrightarrow> inv j rb"
proof -
  assume j: "j < 64" and n: "Newbuffer max_len (2 ^ j) = Inr rb"
  have "(2::nat) ^ j < 2 ^ 64" using j by (intro power_strict_increasing) auto
  then have s: "\<And>i. i < 2 ^ j \<Longrightarrow> slot j (of_nat i) = i"
    by (simp add: slot_def unat_of_nat)
  have "laps j 0 0 (map of_nat [0..<2 ^ j])"
    by (simp add: laps_def s)
  then show ?thesis
    using j wf_Newbuffer [OF j n] Newbuffer_Inr [OF n]
    by (cases "j = 0") (auto simp: inv_def unat_cap)
qed

text \<open>The head slot: writable when there is room, one lap behind when the buffer is full.\<close>

lemma head_slot_room:
  assumes "laps j t m cs" "m < 2 ^ j"
  shows "cs ! slot j (t + of_nat m) = t + of_nat m"
  using laps_nth [OF assms] by simp

lemma head_slot_full:
  assumes "laps j t (2 ^ j) cs" "j < 64"
  shows "cs ! slot j (t + of_nat (2 ^ j)) = t + 1"
proof -
  have "slot j (t + of_nat (0 + 2 ^ j)) = slot j (t + of_nat 0)"
    using assms(2) by (intro slot_lap) simp
  moreover have "cs ! slot j (t + of_nat 0) = t + of_nat 0 + (if 0 < (2::nat) ^ j then 1 else 0)"
    using assms(1) by (rule laps_nth) simp
  ultimately show ?thesis by simp
qed

lemma lap_behind:
  assumes "0 < j" "j < 64"
  shows "sint (t + 1 - (t + of_nat (2 ^ j)) :: uint64) < 0" "t + 1 \<noteq> (t + of_nat (2 ^ j) :: uint64)"
proof -
  have e: "(t + 1 - (t + of_nat (2 ^ j)) :: uint64) = 1 - 2 ^ j" by simp
  show "sint (t + 1 - (t + of_nat (2 ^ j)) :: uint64) < 0"
    unfolding e using assms by (intro sint_neg_lap) simp_all
  then show "t + 1 \<noteq> (t + of_nat (2 ^ j) :: uint64)"
    by (metis cancel_comm_monoid_add_class.diff_cancel less_irrefl sint_0)
qed

lemma Enqueue_inv:
  assumes "inv j rb"
  shows "Enqueue rb a p q =
           (if head_behind rb then Some (Inr (False, rb))
            else Some (Inr (True, enqueued rb a p q)))"
    and "\<not> head_behind rb \<Longrightarrow> inv j (enqueued rb a p q)"
    and "0 < j \<Longrightarrow> head_behind rb \<longleftrightarrow> unat (writeIndex rb - readIndex rb) = 2 ^ j"
proof -
  let ?h = "writeIndex rb" and ?t = "readIndex rb" and ?cs = "cycleState rb"
  have wf: "wf j rb" using assms by (rule inv_wf)
  then have j: "j < 64" and len: "length ?cs = 2 ^ j" by (simp_all add: wf_def)
  have hb: "head_behind rb \<longleftrightarrow> sint (?cs ! slot j ?h - ?h) < 0"
    by (simp add: head_behind_def slot_of_wf [OF wf])
  have so: "\<And>c. slot_of rb c = slot j c" using wf by (rule slot_of_wf)
  have wf': "wf j (enqueued rb a p q)"
    using wf by (simp add: wf_def enqueued_def)
  have main: "(if sint (?cs ! slot j ?h - ?h) < 0 then ?cs ! slot j ?h \<noteq> ?h
               else ?cs ! slot j ?h = ?h \<and> inv j (enqueued rb a p q)) \<and>
              (0 < j \<longrightarrow> (sint (?cs ! slot j ?h - ?h) < 0 \<longleftrightarrow> unat (?h - ?t) = 2 ^ j))"
  proof (cases "j = 0")
    case True
    then have "?cs = [?h]" using assms by (simp add: inv_def)
    moreover have "slot j ?h = 0" using True by (simp add: slot_def)
    ultimately show ?thesis using True wf' by (simp add: inv_def enqueued_def so)
  next
    case False
    then have jp: "0 < j" by simp
    from assms jp obtain m where m: "m \<le> 2 ^ j" "?h = ?t + of_nat m" "laps j ?t m ?cs"
      "unat (?h - ?t) = m" by (rule inv_obtain)
    show ?thesis
    proof (cases "m = 2 ^ j")
      case True
      then have "?cs ! slot j ?h = ?t + 1" using head_slot_full [OF _ j, of ?t ?cs] m by simp
      then show ?thesis using lap_behind [OF jp j, of ?t] m True by simp
    next
      case False
      then have lt: "m < 2 ^ j" using m(1) by simp
      then have c: "?cs ! slot j ?h = ?h" using head_slot_room [OF m(3) lt] m(2) by simp
      have "laps j ?t (Suc m) (?cs[slot j (?t + of_nat m) := ?t + of_nat m + 1])"
        using j len m(3) lt by (intro laps_produce) simp_all
      then have "inv j (enqueued rb a p q)"
        using wf' jp lt m(2) by (intro invI [where m = "Suc m"]) (simp_all add: enqueued_def so)
      then show ?thesis using c jp False m(4) by simp
    qed
  qed
  show "Enqueue rb a p q =
           (if head_behind rb then Some (Inr (False, rb))
            else Some (Inr (True, enqueued rb a p q)))"
    using main unfolding Enqueue_wf [OF wf] hb by (auto simp: Let_def enqueued_def so)
  show "\<not> head_behind rb \<Longrightarrow> inv j (enqueued rb a p q)"
    using main unfolding hb by (simp split: if_splits)
  show "0 < j \<Longrightarrow> head_behind rb \<longleftrightarrow> unat (?h - ?t) = 2 ^ j"
    using main unfolding hb by simp
qed

text \<open>The tail slot: readable when a record is waiting, behind when the buffer is empty.\<close>

lemma tail_slot:
  assumes "laps j t m cs"
  shows "cs ! slot j t = t + (if 0 < m then 1 else 0)"
  using laps_nth [OF assms, of 0] by simp

lemma minus_one_behind: "sint (t - (t + 1) :: uint64) < 0" "t \<noteq> (t + 1 :: uint64)"
  by simp_all

lemma Dequeue_behind:
  assumes "wf j rb" "tail_behind rb"
  shows "Dequeue rb out = Some (Inr (False, out, rb))"
proof -
  have "sint (cycleState rb ! slot j (readIndex rb) - (readIndex rb + 1)) < 0"
    using assms by (simp add: tail_behind_def slot_of_wf)
  moreover from this have "cycleState rb ! slot j (readIndex rb) \<noteq> readIndex rb + 1"
    by auto
  ultimately show ?thesis
    unfolding Dequeue_wf [OF assms(1)] by (simp add: Let_def)
qed

lemma empty_tail_behind:
  assumes "inv j rb" "readIndex rb = writeIndex rb"
  shows "tail_behind rb"
proof -
  let ?h = "writeIndex rb" and ?t = "readIndex rb" and ?cs = "cycleState rb"
  have wf: "wf j rb" using assms(1) by (rule inv_wf)
  have "?cs ! slot j ?t = ?t"
  proof (cases "j = 0")
    case True
    then have "?cs = [?h]" using assms by (simp add: inv_def)
    moreover have "slot j ?t = 0" using True by (simp add: slot_def)
    ultimately show ?thesis using assms(2) by simp
  next
    case False
    then have jp: "0 < j" by simp
    from assms(1) jp obtain m where m: "m \<le> 2 ^ j" "?h = ?t + of_nat m" "laps j ?t m ?cs"
      "unat (?h - ?t) = m" by (rule inv_obtain)
    then have "m = 0" using assms(2) by simp
    then show ?thesis using tail_slot [OF m(3)] by simp
  qed
  then show ?thesis
    using minus_one_behind(1) [of ?t] by (simp add: tail_behind_def slot_of_wf [OF wf])
qed

lemma Dequeue_inv:
  assumes "inv j rb" "0 < j"
  shows "Dequeue rb out =
           (if tail_behind rb then Some (Inr (False, out, rb))
            else Some (Inr (True, (ids rb ! slot_of rb (readIndex rb),
                                  prices rb ! slot_of rb (readIndex rb),
                                  qtys rb ! slot_of rb (readIndex rb)), dequeued rb)))"
    and "\<not> tail_behind rb \<Longrightarrow> inv j (dequeued rb)"
    and "tail_behind rb \<longleftrightarrow> writeIndex rb = readIndex rb"
proof -
  let ?h = "writeIndex rb" and ?t = "readIndex rb" and ?cs = "cycleState rb"
  have wf: "wf j rb" using assms(1) by (rule inv_wf)
  then have j: "j < 64" and len: "length ?cs = 2 ^ j" and cap: "capacity rb = 2 ^ j"
    by (simp_all add: wf_def)
  have so: "\<And>c. slot_of rb c = slot j c" using wf by (rule slot_of_wf)
  have tb: "tail_behind rb \<longleftrightarrow> sint (?cs ! slot j ?t - (?t + 1)) < 0"
    by (simp add: tail_behind_def so)
  have wf': "wf j (dequeued rb)"
    using wf by (simp add: wf_def dequeued_def)
  from assms obtain m where m: "m \<le> 2 ^ j" "?h = ?t + of_nat m" "laps j ?t m ?cs"
    "unat (?h - ?t) = m" by (rule inv_obtain)
  have main: "(if sint (?cs ! slot j ?t - (?t + 1)) < 0 then ?cs ! slot j ?t \<noteq> ?t + 1 \<and> ?h = ?t
               else ?cs ! slot j ?t = ?t + 1 \<and> ?h \<noteq> ?t \<and> inv j (dequeued rb))"
  proof (cases "m = 0")
    case True
    then have "?cs ! slot j ?t = ?t" using tail_slot [OF m(3)] by simp
    then show ?thesis using minus_one_behind [of ?t] m(2) True by simp
  next
    case False
    then have mp: "0 < m" by simp
    then have c: "?cs ! slot j ?t = ?t + 1" using tail_slot [OF m(3)] by simp
    have "laps j (?t + 1) (m - 1) (?cs[slot j ?t := ?t + 2 ^ j])"
      using j len m(3) mp m(1) by (rule laps_consume)
    moreover have "?h = ?t + 1 + of_nat (m - 1)"
      using mp m(2) by (simp add: of_nat_diff)
    ultimately have "inv j (dequeued rb)"
      using wf' assms(2) m(1)
      by (intro invI [where m = "m - 1"]) (simp_all add: dequeued_def so cap)
    moreover have "?h \<noteq> ?t" using m(4) mp by auto
    ultimately show ?thesis using c by simp
  qed
  show "Dequeue rb out =
           (if tail_behind rb then Some (Inr (False, out, rb))
            else Some (Inr (True, (ids rb ! slot_of rb ?t, prices rb ! slot_of rb ?t,
                                  qtys rb ! slot_of rb ?t), dequeued rb)))"
    using main unfolding Dequeue_wf [OF wf] tb
    by (auto simp: Let_def dequeued_def so cap)
  show "\<not> tail_behind rb \<Longrightarrow> inv j (dequeued rb)"
    using main unfolding tb by (simp split: if_splits)
  show "tail_behind rb \<longleftrightarrow> ?h = ?t"
    using main unfolding tb by (simp split: if_splits)
qed

lemma inv_Dequeue:
  assumes "inv j rb" "Dequeue rb out = Some (Inr (ok, out', rb'))"
  shows "inv j rb'"
proof (cases "j = 0")
  case False
  then have jp: "0 < j" by simp
  show ?thesis
    using assms(2) Dequeue_inv(2) [OF assms(1) jp] assms(1)
    unfolding Dequeue_inv(1) [OF assms(1) jp]
    by (auto split: if_splits)
next
  case True
  have inv0: "inv 0 rb" using assms(1) True by simp
  then have wf: "wf 0 rb" by (rule inv_wf)
  have cs: "cycleState rb = [writeIndex rb]" using inv0 by (simp add: inv_def)
  have s0: "\<And>c. slot 0 c = 0" by (simp add: slot_def)
  have "Dequeue rb out =
      (if writeIndex rb = readIndex rb + 1 then
         Some (Inr (True, (ids rb ! 0, prices rb ! 0, qtys rb ! 0),
                 rb\<lparr>readIndex := readIndex rb + 1, cycleState := [readIndex rb + 1]\<rparr>))
       else if sint (writeIndex rb - (readIndex rb + 1)) < 0 then Some (Inr (False, out, rb))
       else None)"
    unfolding Dequeue_wf [OF wf] by (simp add: Let_def cs s0)
  with assms(2) consider "rb' = rb"
    | "writeIndex rb = readIndex rb + 1"
      "rb' = rb\<lparr>readIndex := readIndex rb + 1, cycleState := [readIndex rb + 1]\<rparr>"
    by (auto split: if_splits)
  then have "inv 0 rb'"
  proof cases
    case 1
    then show ?thesis using inv0 by simp
  next
    case 2
    then show ?thesis using wf by (simp add: inv_def wf_def)
  qed
  then show ?thesis using True by simp
qed

lemma inv_Enqueue:
  assumes "inv j rb" "Enqueue rb a p q = Some (Inr (ok, rb'))"
  shows "inv j rb'"
  using assms(2) Enqueue_inv(2) [OF assms(1)] assms(1)
  unfolding Enqueue_inv(1) [OF assms(1)]
  by (auto split: if_splits)

section \<open>The copy loops\<close>

lemma copied_step:
  assumes c: "copied j h (a, p, q) k rb rb1" and k: "k < 2 ^ j" "k < length a" "k < length p"
    "k < length q"
  shows "\<exists>rb2. EnqueueBatch_copy h (a, p, q) k rb1 = Some (Inr rb2) \<and>
               copied j h (a, p, q) (Suc k) rb rb2"
proof -
  have wf: "wf j rb1" using c by (simp add: copied_def)
  then have j: "j \<le> 64" and len: "length (cycleState rb1) = 2 ^ j" "length (ids rb1) = 2 ^ j"
    "length (prices rb1) = 2 ^ j" "length (qtys rb1) = 2 ^ j"
    by (simp_all add: wf_def)
  let ?s = "slot j (h + of_nat k)"
  let ?rb2 = "rb1\<lparr>cycleState := (cycleState rb1)[?s := h + of_nat k + 1],
              ids := (ids rb1)[?s := a ! k], prices := (prices rb1)[?s := p ! k],
              qtys := (qtys rb1)[?s := q ! k]\<rparr>"
  have run: "EnqueueBatch_copy h (a, p, q) k rb1 = Some (Inr ?rb2)"
    unfolding EnqueueBatch_copy_wf [OF wf] using k by simp
  have neq: "\<And>i. i < k \<Longrightarrow> slot j (h + of_nat i) \<noteq> ?s"
    using slot_eq_iff [OF j _ k(1), of _ h] k(1) by auto
  have s: "?s < 2 ^ j" by (rule slot_less)
  have "copied j h (a, p, q) (Suc k) rb ?rb2"
    unfolding copied_def
  proof (simp only: prod.case, intro conjI allI impI)
    show "wf j ?rb2" using wf by (simp add: wf_def)
    show "writeIndex ?rb2 = writeIndex rb" "readIndex ?rb2 = readIndex rb"
      using c by (simp_all add: copied_def)
  next
    fix i assume i: "i < Suc k"
    show "cycleState ?rb2 ! slot j (h + of_nat i) = h + of_nat i + 1"
      "ids ?rb2 ! slot j (h + of_nat i) = a ! i"
      "prices ?rb2 ! slot j (h + of_nat i) = p ! i"
      "qtys ?rb2 ! slot j (h + of_nat i) = q ! i"
      using i c neq [of i] s len
      by (cases "i = k"; simp add: copied_def nth_list_update)+
  next
    fix off assume "\<forall>i<Suc k. off \<noteq> slot j (h + of_nat i)"
    then have "off \<noteq> ?s" "\<forall>i<k. off \<noteq> slot j (h + of_nat i)" by simp_all
    then show "cycleState ?rb2 ! off = cycleState rb ! off" "ids ?rb2 ! off = ids rb ! off"
      "prices ?rb2 ! off = prices rb ! off" "qtys ?rb2 ! off = qtys rb ! off"
      using c by (simp_all add: copied_def)
  qed
  with run show ?thesis by blast
qed

lemma copied_0: "wf j rb \<Longrightarrow> copied j h src 0 rb rb"
  by (cases src) (simp add: copied_def)

lemma EnqueueBatch_loop:
  assumes "wf j rb" "n \<le> 2 ^ j" "n \<le> length a" "n \<le> length p" "n \<le> length q"
  shows "\<exists>rb'. for_each (EnqueueBatch_copy h (a, p, q)) [0..<n] rb = Some (Inr rb') \<and>
               copied j h (a, p, q) n rb rb'"
proof (rule for_each_upt_total [where P = "\<lambda>k rb'. copied j h (a, p, q) k rb rb'"])
  show "copied j h (a, p, q) 0 rb rb" using assms(1) by (rule copied_0)
next
  fix i s assume "i < n" "copied j h (a, p, q) i rb s"
  then show "\<exists>s'. EnqueueBatch_copy h (a, p, q) i s = Some (Inr s') \<and>
                  copied j h (a, p, q) (Suc i) rb s'"
    using assms(2-5) by (intro copied_step) simp_all
qed

lemma EnqueueBatch_loop_panic:
  assumes "wf j rb" "n \<le> 2 ^ j" "n \<le> length a" "length p < n \<or> length q < n"
  shows "for_each (EnqueueBatch_copy h (a, p, q)) [0..<n] rb = Some (Inl IndexOutOfRange)"
proof -
  define k where "k = min (length p) (length q)"
  have k: "k < n" "k \<le> length p" "k \<le> length q" "\<not> (k < length p \<and> k < length q)"
    using assms(4) by (auto simp: k_def)
  show ?thesis
  proof (rule for_each_upt_panic [where P = "\<lambda>k rb'. copied j h (a, p, q) k rb rb'" and k = k])
    show "copied j h (a, p, q) 0 rb rb" using assms(1) by (rule copied_0)
    show "k < n" by (rule k(1))
  next
    fix i s assume "i < k" "copied j h (a, p, q) i rb s"
    then show "\<exists>s'. EnqueueBatch_copy h (a, p, q) i s = Some (Inr s') \<and>
                    copied j h (a, p, q) (Suc i) rb s'"
      using assms(2,3) k by (intro copied_step) simp_all
  next
    fix s assume "copied j h (a, p, q) k rb s"
    then have "wf j s" by (simp add: copied_def)
    then show "EnqueueBatch_copy h (a, p, q) k s = Some (Inl IndexOutOfRange)"
      unfolding EnqueueBatch_copy_wf [OF \<open>wf j s\<close>] using k(4) by auto
  qed
qed

lemma drained_published:
  assumes d: "drained j t k (rb, a, p, q) (rb1, a1, p1, q1)" and k: "k < 2 ^ j"
    and pub: "cycleState rb ! slot j (t + of_nat k) = t + of_nat k + 1"
  shows "cycleState rb1 ! slot j (t + of_nat k) = t + of_nat k + 1"
proof -
  have "j \<le> 64" using d by (simp add: drained_def wf_def)
  then have "\<forall>i<k. slot j (t + of_nat k) \<noteq> slot j (t + of_nat i)"
    using slot_eq_iff [OF _ k, of _ t] k by auto
  then have "cycleState rb1 ! slot j (t + of_nat k) = cycleState rb ! slot j (t + of_nat k)"
    using d by (simp add: drained_def)
  with pub show ?thesis by simp
qed

lemma drained_step:
  assumes d: "drained j t k (rb, a, p, q) (rb1, a1, p1, q1)"
    and k: "k < 2 ^ j" "k < length a" "k < length p" "k < length q"
    and pub: "cycleState rb ! slot j (t + of_nat k) = t + of_nat k + 1"
  shows "\<exists>s2. DequeueBatch_copy t k (rb1, a1, p1, q1) = Some (Inr s2) \<and>
              drained j t (Suc k) (rb, a, p, q) s2"
proof -
  have wf: "wf j rb1" using d by (simp add: drained_def)
  then have j: "j \<le> 64" and len: "length (cycleState rb1) = 2 ^ j"
    by (simp_all add: wf_def)
  have lens: "length a1 = length a" "length p1 = length p" "length q1 = length q"
    and same: "ids rb1 = ids rb" "prices rb1 = prices rb" "qtys rb1 = qtys rb"
    using d by (simp_all add: drained_def)
  let ?s = "slot j (t + of_nat k)"
  let ?rb2 = "rb1\<lparr>cycleState := (cycleState rb1)[?s := t + of_nat k + 2 ^ j]\<rparr>"
  let ?a2 = "a1[k := ids rb ! ?s]" and ?p2 = "p1[k := prices rb ! ?s]"
  let ?q2 = "q1[k := qtys rb ! ?s]"
  have c: "cycleState rb1 ! ?s = t + of_nat k + 1"
    using d k(1) pub by (rule drained_published)
  have run: "DequeueBatch_copy t k (rb1, a1, p1, q1) = Some (Inr (?rb2, ?a2, ?p2, ?q2))"
    unfolding DequeueBatch_copy_wf [OF wf] using k c lens same by (simp add: Let_def)
  have neq: "\<And>i. i < k \<Longrightarrow> slot j (t + of_nat i) \<noteq> ?s"
    using slot_eq_iff [OF j _ k(1), of _ t] k(1) by auto
  have s: "?s < 2 ^ j" by (rule slot_less)
  have "drained j t (Suc k) (rb, a, p, q) (?rb2, ?a2, ?p2, ?q2)"
    unfolding drained_def
  proof (simp only: prod.case, intro conjI allI impI)
    show "wf j ?rb2" using wf by (simp add: wf_def)
    show "writeIndex ?rb2 = writeIndex rb" "readIndex ?rb2 = readIndex rb"
      "ids ?rb2 = ids rb" "prices ?rb2 = prices rb" "qtys ?rb2 = qtys rb"
      "length ?a2 = length a" "length ?p2 = length p" "length ?q2 = length q"
      using d by (simp_all add: drained_def)
  next
    fix i assume i: "i < Suc k"
    show "cycleState ?rb2 ! slot j (t + of_nat i) = t + of_nat i + 2 ^ j"
      "?a2 ! i = ids rb ! slot j (t + of_nat i)"
      "?p2 ! i = prices rb ! slot j (t + of_nat i)"
      "?q2 ! i = qtys rb ! slot j (t + of_nat i)"
      using i d neq [of i] s len k lens
      by (cases "i = k"; simp add: drained_def nth_list_update)+
  next
    fix i assume "Suc k \<le> i"
    then have "k \<noteq> i" "k \<le> i" by simp_all
    then show "?a2 ! i = a ! i" "?p2 ! i = p ! i" "?q2 ! i = q ! i"
      using d by (simp_all add: drained_def)
  next
    fix off assume "\<forall>i<Suc k. off \<noteq> slot j (t + of_nat i)"
    then have "off \<noteq> ?s" "\<forall>i<k. off \<noteq> slot j (t + of_nat i)" by simp_all
    then show "cycleState ?rb2 ! off = cycleState rb ! off"
      using d by (simp add: drained_def)
  qed
  with run show ?thesis by blast
qed

lemma drained_0: "wf j rb \<Longrightarrow> drained j t 0 (rb, a, p, q) (rb, a, p, q)"
  by (simp add: drained_def)

lemma DequeueBatch_loop:
  assumes "wf j rb" "n \<le> 2 ^ j" "n \<le> length a" "n \<le> length p" "n \<le> length q"
    and "\<And>i. i < n \<Longrightarrow> cycleState rb ! slot j (t + of_nat i) = t + of_nat i + 1"
  shows "\<exists>s'. for_each (DequeueBatch_copy t) [0..<n] (rb, a, p, q) = Some (Inr s') \<and>
              drained j t n (rb, a, p, q) s'"
proof (rule for_each_upt_total [where P = "\<lambda>k s'. drained j t k (rb, a, p, q) s'"])
  show "drained j t 0 (rb, a, p, q) (rb, a, p, q)" using assms(1) by (rule drained_0)
next
  fix i s assume i: "i < n" and d: "drained j t i (rb, a, p, q) s"
  obtain rb1 a1 p1 q1 where s: "s = (rb1, a1, p1, q1)" by (cases s)
  show "\<exists>s'. DequeueBatch_copy t i s = Some (Inr s') \<and> drained j t (Suc i) (rb, a, p, q) s'"
    unfolding s using d [unfolded s] i assms(2-5) assms(6) [OF i]
    by (intro drained_step) simp_all
qed

lemma DequeueBatch_loop_panic:
  assumes "wf j rb" "n \<le> 2 ^ j" "n \<le> length a" "length p < n \<or> length q < n"
    and "\<And>i. i < n \<Longrightarrow> cycleState rb ! slot j (t + of_nat i) = t + of_nat i + 1"
  shows "for_each (DequeueBatch_copy t) [0..<n] (rb, a, p, q) = Some (Inl IndexOutOfRange)"
proof -
  define k where "k = min (length p) (length q)"
  have k: "k < n" "k \<le> length p" "k \<le> length q" "\<not> (k < length p \<and> k < length q)"
    using assms(4) by (auto simp: k_def)
  show ?thesis
  proof (rule for_each_upt_panic [where P = "\<lambda>k s'. drained j t k (rb, a, p, q) s'" and k = k])
    show "drained j t 0 (rb, a, p, q) (rb, a, p, q)" using assms(1) by (rule drained_0)
    show "k < n" by (rule k(1))
  next
    fix i s assume i: "i < k" and d: "drained j t i (rb, a, p, q) s"
    obtain rb1 a1 p1 q1 where s: "s = (rb1, a1, p1, q1)" by (cases s)
    have "i < n" using i k(1) by simp
    then show "\<exists>s'. DequeueBatch_copy t i s = Some (Inr s') \<and>
                    drained j t (Suc i) (rb, a, p, q) s'"
      unfolding s using d [unfolded s] i assms(2,3) k assms(5) [of i]
      by (intro drained_step) simp_all
  next
    fix s assume d: "drained j t k (rb, a, p, q) s"
    obtain rb1 a1 p1 q1 where s: "s = (rb1, a1, p1, q1)" by (cases s)
    have wf: "wf j rb1" and lens: "length p1 = length p" "length q1 = length q"
      using d by (simp_all add: s drained_def)
    have "k < 2 ^ j" using k(1) assms(2) by simp
    with d [unfolded s] have "cycleState rb1 ! slot j (t + of_nat k) = t + of_nat k + 1"
      using assms(5) [OF k(1)] by (rule drained_published)
    then show "DequeueBatch_copy t k s = Some (Inl IndexOutOfRange)"
      unfolding s DequeueBatch_copy_wf [OF wf] using k(4) lens by (auto simp: Let_def)
  qed
qed

section \<open>The lap invariant across a batch\<close>

lemma laps_copied:
  assumes l: "laps j t m (cycleState rb)" and c: "copied j (t + of_nat m) src n rb rb'"
    and mn: "m + n \<le> 2 ^ j" and j: "j \<le> 64"
  shows "laps j t (m + n) (cycleState rb')"
  unfolding laps_def
proof (intro allI impI)
  fix i :: nat assume i: "i < 2 ^ j"
  obtain a p q where src: "src = (a, p, q)" by (cases src)
  show "cycleState rb' ! slot j (t + of_nat i) = t + of_nat i + (if i < m + n then 1 else 0)"
  proof (cases "m \<le> i \<and> i < m + n")
    case True
    then have k: "i - m < n" by auto
    have e: "t + of_nat m + of_nat (i - m) = (t + of_nat i :: uint64)"
      using True by (simp add: of_nat_diff)
    have "cycleState rb' ! slot j (t + of_nat m + of_nat (i - m)) =
          t + of_nat m + of_nat (i - m) + 1"
      using c k by (simp add: copied_def src)
    then show ?thesis using True unfolding e by simp
  next
    case False
    have "\<forall>k<n. slot j (t + of_nat i) \<noteq> slot j (t + of_nat m + of_nat k)"
    proof (intro allI impI)
      fix k assume k: "k < n"
      have e': "t + of_nat m + of_nat k = (t + of_nat (m + k) :: uint64)" by simp
      have "m + k < 2 ^ j" using k mn by simp
      then have "slot j (t + of_nat i) \<noteq> slot j (t + of_nat (m + k))"
        using slot_eq_iff [OF j i, of "m + k" t] False k by auto
      then show "slot j (t + of_nat i) \<noteq> slot j (t + of_nat m + of_nat k)"
        unfolding e' .
    qed
    then have "cycleState rb' ! slot j (t + of_nat i) = cycleState rb ! slot j (t + of_nat i)"
      using c by (simp add: copied_def src)
    also have "\<dots> = t + of_nat i + (if i < m then 1 else 0)"
      using l i by (rule laps_nth)
    finally show ?thesis using False by auto
  qed
qed

lemma laps_drained:
  assumes l: "laps j t m (cycleState rb)" and d: "drained j t n (rb, a, p, q) (rb', a', p', q')"
    and nm: "n \<le> m" "m \<le> 2 ^ j" and j: "j \<le> 64"
  shows "laps j (t + of_nat n) (m - n) (cycleState rb')"
  unfolding laps_def
proof (intro allI impI)
  fix i :: nat assume i: "i < 2 ^ j"
  have e: "t + of_nat n + of_nat i = (t + of_nat (n + i) :: uint64)" by simp
  show "cycleState rb' ! slot j (t + of_nat n + of_nat i) =
        t + of_nat n + of_nat i + (if i < m - n then 1 else 0)"
  proof (cases "n + i < 2 ^ j")
    case True
    have "\<forall>k<n. slot j (t + of_nat (n + i)) \<noteq> slot j (t + of_nat k)"
      using slot_eq_iff [OF j True, of _ t] nm by auto
    then have "cycleState rb' ! slot j (t + of_nat (n + i)) =
               cycleState rb ! slot j (t + of_nat (n + i))"
      using d by (simp add: drained_def)
    also have "\<dots> = t + of_nat (n + i) + (if n + i < m then 1 else 0)"
      using l True by (rule laps_nth)
    also have "\<dots> = t + of_nat (n + i) + (if i < m - n then 1 else 0)"
      using nm by auto
    finally show ?thesis unfolding e .
  next
    case False
    define k where "k = n + i - 2 ^ j"
    have k: "k < n" "n + i = k + 2 ^ j" using False i by (simp_all add: k_def)
    have "slot j (t + of_nat (k + 2 ^ j)) = slot j (t + of_nat k)"
      using j by (rule slot_lap)
    moreover have "cycleState rb' ! slot j (t + of_nat k) = t + of_nat k + 2 ^ j"
      using d k(1) by (simp add: drained_def)
    moreover have "t + of_nat k + 2 ^ j = (t + of_nat (k + 2 ^ j) :: uint64)" by simp
    moreover have "\<not> i < m - n" using k(2) nm k(1) by linarith
    ultimately show ?thesis unfolding e k(2) by simp
  qed
qed

section \<open>EnqueueBatch on a reachable state\<close>

lemma range_end_room:
  assumes "laps j t m cs" "0 < n" "m + n \<le> 2 ^ j"
  shows "cs ! slot j (t + of_nat m + of_nat n - 1) = t + of_nat m + of_nat n - 1"
proof -
  have e: "t + of_nat m + of_nat n - 1 = (t + of_nat (m + n - 1) :: uint64)"
    using assms(2) by (simp add: of_nat_diff)
  have "cs ! slot j (t + of_nat (m + n - 1)) =
        t + of_nat (m + n - 1) + (if m + n - 1 < m then 1 else 0)"
    using assms by (intro laps_nth) simp_all
  then show ?thesis unfolding e using assms(2) by simp
qed

lemma range_end_taken:
  assumes "laps j t m cs" "n \<le> 2 ^ j" "2 ^ j < m + n" "j \<le> 64" "m \<le> 2 ^ j"
  shows "cs ! slot j (t + of_nat m + of_nat n - 1) - (t + of_nat m + of_nat n - 1) = 1 - 2 ^ j"
proof -
  define i where "i = m + n - 1 - 2 ^ j"
  have i: "i < m" "m + n = Suc (i + 2 ^ j)" "i < 2 ^ j"
    using assms(2,3,5) by (simp_all add: i_def)
  have "of_nat m + of_nat n = (of_nat (Suc (i + 2 ^ j)) :: uint64)"
    using i(2) by (metis of_nat_add)
  then have e: "t + of_nat m + of_nat n - 1 = (t + of_nat (i + 2 ^ j) :: uint64)"
    by (simp add: add.assoc)
  have "slot j (t + of_nat (i + 2 ^ j)) = slot j (t + of_nat i)"
    using assms(4) by (rule slot_lap)
  moreover have "cs ! slot j (t + of_nat i) = t + of_nat i + (if i < m then 1 else 0)"
    using assms(1) i(3) by (rule laps_nth)
  ultimately have "cs ! slot j (t + of_nat (i + 2 ^ j)) = t + of_nat i + 1"
    using i(1) by simp
  then show ?thesis unfolding e by simp
qed

lemma EnqueueBatch_inv_pos:
  assumes inv: "inv j rb" and jp: "0 < j" and n: "length a \<le> 2 ^ j"
  shows "EnqueueBatch rb a p q =
     (if unat (writeIndex rb - readIndex rb) + length a \<le> 2 ^ j
      then map_outcome (\<lambda>rb'. (of_nat (length a), rb'))
             (for_each (EnqueueBatch_copy (writeIndex rb) (a, p, q)) [0..<length a]
                (rb\<lparr>writeIndex := writeIndex rb + of_nat (length a)\<rparr>))
      else Some (Inr (0, rb)))"
proof -
  let ?h = "writeIndex rb" and ?t = "readIndex rb" and ?cs = "cycleState rb"
  let ?n = "length a"
  let ?loop = "map_outcome (\<lambda>rb'. (of_nat ?n :: uint64, rb'))
             (for_each (EnqueueBatch_copy ?h (a, p, q)) [0..<?n]
                (rb\<lparr>writeIndex := ?h + of_nat ?n\<rparr>))"
  have wf: "wf j rb" using inv by (rule inv_wf)
  then have j: "j < 64" by (simp add: wf_def)
  from inv jp obtain m where m: "m \<le> 2 ^ j" "?h = ?t + of_nat m" "laps j ?t m ?cs"
    "unat (?h - ?t) = m" by (rule inv_obtain)
  have un: "unat (of_nat ?n :: uint64) = ?n" using j n by (rule unat_of_nat_cap)
  have l0: "?n = 0 \<Longrightarrow> ?loop = Some (Inr (0, rb))" by simp
  have "EnqueueBatch rb a p q = (if m + ?n \<le> 2 ^ j then ?loop else Some (Inr (0, rb)))"
  proof (cases "m = 2 ^ j")
    case True
    then have "?cs ! slot j ?h = ?t + 1" using head_slot_full [OF _ j, of ?t ?cs] m by simp
    then have "sint (?cs ! slot j ?h - ?h) < 0"
      using lap_behind(1) [OF jp j, of ?t] m True by simp
    then have "EnqueueBatch rb a p q = Some (Inr (0, rb))"
      unfolding EnqueueBatch_wf [OF wf] by (simp add: Let_def)
    then show ?thesis using True l0 by auto
  next
    case False
    then have lt: "m < 2 ^ j" using m(1) by simp
    then have c: "?cs ! slot j ?h = ?h" using head_slot_room [OF m(3) lt] m(2) by simp
    show ?thesis
    proof (cases "?n = 0")
      case True
      then show ?thesis
        unfolding EnqueueBatch_wf [OF wf] using c lt by (simp add: Let_def)
    next
      case False
      then have np: "0 < ?n" by simp
      show ?thesis
      proof (cases "m + ?n \<le> 2 ^ j")
        case True
        have "?cs ! slot j (?h + of_nat ?n - 1) = ?h + of_nat ?n - 1"
          using range_end_room [OF m(3) np True] m(2) by simp
        then show ?thesis
          unfolding EnqueueBatch_wf [OF wf] using c True un by (simp add: Let_def)
      next
        case False
        then have gt: "2 ^ j < m + ?n" by simp
        have d: "?cs ! slot j (?h + of_nat ?n - 1) - (?h + of_nat ?n - 1) = 1 - 2 ^ j"
          using range_end_taken [OF m(3) n gt _ m(1)] j m(2) by simp
        have "sint (?cs ! slot j (?h + of_nat ?n - 1) - (?h + of_nat ?n - 1)) < 0"
          unfolding d using jp j by (intro sint_neg_lap) simp_all
        then show ?thesis
          unfolding EnqueueBatch_wf [OF wf] using c False by (simp add: Let_def)
      qed
    qed
  qed
  then show ?thesis using m(4) by simp
qed

lemma EnqueueBatch_inv_0:
  assumes inv: "inv 0 rb" and n: "length a \<le> 1"
  shows "EnqueueBatch rb a p q =
     map_outcome (\<lambda>rb'. (of_nat (length a), rb'))
       (for_each (EnqueueBatch_copy (writeIndex rb) (a, p, q)) [0..<length a]
          (rb\<lparr>writeIndex := writeIndex rb + of_nat (length a)\<rparr>))"
proof -
  have wf: "wf 0 rb" using inv by (rule inv_wf)
  have cs: "cycleState rb = [writeIndex rb]" using inv by (simp add: inv_def)
  have s0: "\<And>c. slot 0 c = 0" by (simp add: slot_def)
  from n consider "length a = 0" | "length a = 1" by linarith
  then show ?thesis
  proof cases
    case 1
    then show ?thesis
      unfolding EnqueueBatch_wf [OF wf] by (simp add: Let_def cs s0)
  next
    case 2
    then show ?thesis
      unfolding EnqueueBatch_wf [OF wf] by (simp add: Let_def cs s0)
  qed
qed

lemma singleton_nth: "length xs = Suc 0 \<Longrightarrow> xs = [xs ! 0]"
  by (cases xs) simp_all

lemma copied_batch_written:
  assumes wf: "wf j rb" and c: "copied j (writeIndex rb) src n (rb\<lparr>writeIndex := writeIndex rb + of_nat n\<rparr>) rb'"
  shows "batch_written rb src n rb'"
proof -
  obtain a p q where src: "src = (a, p, q)" by (cases src)
  have wf': "wf j rb'" using c by (simp add: copied_def src)
  have so: "\<And>c. slot_of rb c = slot j c" using wf by (rule slot_of_wf)
  show ?thesis
    using c wf wf' unfolding batch_written_def copied_def src so
    by (simp add: wf_def)
qed

lemma copied_inv:
  assumes inv: "inv j rb" and n: "n \<le> 2 ^ j"
    and fits: "0 < j \<Longrightarrow> unat (writeIndex rb - readIndex rb) + n \<le> 2 ^ j"
    and c: "copied j (writeIndex rb) src n (rb\<lparr>writeIndex := writeIndex rb + of_nat n\<rparr>) rb'"
  shows "inv j rb'"
proof (cases "j = 0")
  case True
  obtain a p q where src: "src = (a, p, q)" by (cases src)
  have wf': "wf 0 rb'" using c True by (simp add: copied_def src)
  then have len: "length (cycleState rb') = Suc 0" by (simp add: wf_def)
  have cs: "cycleState rb = [writeIndex rb]" using inv True by (simp add: inv_def)
  have s0: "\<And>c. slot 0 c = 0" by (simp add: slot_def)
  from n True consider "n = 0" | "n = 1" by force
  then have "cycleState rb' ! 0 = writeIndex rb'"
  proof cases
    case 1
    then show ?thesis using c True cs by (simp add: copied_def src)
  next
    case 2
    then show ?thesis using c True by (simp add: copied_def src s0)
  qed
  then have "cycleState rb' = [writeIndex rb']" using singleton_nth [OF len] by simp
  then show ?thesis using wf' True by (simp add: inv_def)
next
  case False
  then have jp: "0 < j" by simp
  let ?h = "writeIndex rb" and ?t = "readIndex rb" and ?cs = "cycleState rb"
  obtain a p q where src: "src = (a, p, q)" by (cases src)
  have wf': "wf j rb'" using c by (simp add: copied_def src)
  then have j: "j \<le> 64" by (simp add: wf_def)
  from inv jp obtain m where m: "m \<le> 2 ^ j" "?h = ?t + of_nat m" "laps j ?t m ?cs"
    "unat (?h - ?t) = m" by (rule inv_obtain)
  have mn: "m + n \<le> 2 ^ j" using fits [OF jp] m(4) by simp
  have "laps j ?t m (cycleState (rb\<lparr>writeIndex := ?h + of_nat n\<rparr>))" using m(3) by simp
  moreover have "copied j (?t + of_nat m) src n (rb\<lparr>writeIndex := ?h + of_nat n\<rparr>) rb'"
    using c m(2) by simp
  ultimately have "laps j ?t (m + n) (cycleState rb')"
    using mn j by (rule laps_copied)
  moreover have "writeIndex rb' = ?t + of_nat (m + n)" "readIndex rb' = ?t"
    using c m(2) by (simp_all add: copied_def src)
  ultimately show ?thesis
    using wf' jp mn by (intro invI [where m = "m + n"]) simp_all
qed

text \<open>What \<^verbatim>\<open>EnqueueBatch\<close> does on a reachable state with a batch within the capacity:
  with slices long enough it returns 0 and changes nothing, or it returns the batch length
  and has written the batch; with a shorter \<open>prices\<close> or \<open>qtys\<close> slice it returns 0 or
  panics.\<close>

lemma EnqueueBatch_result:
  assumes inv: "inv j rb" and n: "length a \<le> 2 ^ j"
  shows "(EnqueueBatch rb a p q = Some (Inr (0, rb)) \<and>
            (0 < j \<and> 2 ^ j < unat (writeIndex rb - readIndex rb) + length a)) \<or>
         ((0 < j \<longrightarrow> unat (writeIndex rb - readIndex rb) + length a \<le> 2 ^ j) \<and>
          (if length a \<le> length p \<and> length a \<le> length q
           then \<exists>rb'. EnqueueBatch rb a p q = Some (Inr (of_nat (length a), rb')) \<and>
                  batch_written rb (a, p, q) (length a) rb' \<and> inv j rb'
           else EnqueueBatch rb a p q = Some (Inl IndexOutOfRange)))"
proof -
  let ?h = "writeIndex rb" and ?n = "length a"
  let ?rb1 = "rb\<lparr>writeIndex := ?h + of_nat ?n\<rparr>"
  let ?loop = "for_each (EnqueueBatch_copy ?h (a, p, q)) [0..<?n] ?rb1"
  have wf: "wf j rb" using inv by (rule inv_wf)
  then have wf1: "wf j ?rb1" by (simp add: wf_def)
  let ?fits = "0 < j \<longrightarrow> unat (?h - readIndex rb) + ?n \<le> 2 ^ j"
  have eq: "EnqueueBatch rb a p q =
      (if ?fits then map_outcome (\<lambda>rb'. (of_nat ?n, rb')) ?loop else Some (Inr (0, rb)))"
  proof (cases "j = 0")
    case True
    then show ?thesis using EnqueueBatch_inv_0 [where rb = rb and a = a and p = p and q = q] inv n by simp
  next
    case False
    then show ?thesis using EnqueueBatch_inv_pos [OF inv _ n, where p = p and q = q] by simp
  qed
  show ?thesis
  proof (cases ?fits)
    case False
    then show ?thesis using eq by auto
  next
    case True
    show ?thesis
    proof (cases "?n \<le> length p \<and> ?n \<le> length q")
      case True
      then obtain rb' where rb': "?loop = Some (Inr rb')" "copied j ?h (a, p, q) ?n ?rb1 rb'"
        using EnqueueBatch_loop [OF wf1 n, where p = p and q = q and h = ?h] by auto
      have "batch_written rb (a, p, q) ?n rb'" using wf rb'(2) by (rule copied_batch_written)
      moreover have "inv j rb'"
      proof (rule copied_inv [OF inv n _ rb'(2)])
        assume "0 < j"
        with \<open>?fits\<close> show "unat (?h - readIndex rb) + ?n \<le> 2 ^ j" by simp
      qed
      ultimately show ?thesis using eq \<open>?fits\<close> rb'(1) True by auto
    next
      case False
      then have "length p < ?n \<or> length q < ?n" by auto
      then have "?loop = Some (Inl IndexOutOfRange)"
        using EnqueueBatch_loop_panic [OF wf1 n, where p = p and q = q and h = ?h] by simp
      then show ?thesis using eq \<open>?fits\<close> False by auto
    qed
  qed
qed

lemma inv_EnqueueBatch:
  assumes "inv j rb" "length a \<le> 2 ^ j" "EnqueueBatch rb a p q = Some (Inr (n, rb'))"
  shows "inv j rb'"
  using EnqueueBatch_result [OF assms(1,2), where p = p and q = q] assms(1,3)
  by (auto split: if_splits)

section \<open>DequeueBatch on a reachable state\<close>

lemma range_end_published:
  assumes "laps j t m cs" "0 < n" "n \<le> 2 ^ j"
  shows "cs ! slot j (t + of_nat n - 1) - (t + of_nat n) = (if n \<le> m then 0 else - 1)"
proof -
  have e: "t + of_nat n - 1 = (t + of_nat (n - 1) :: uint64)"
    using assms(2) by (simp add: of_nat_diff)
  have "cs ! slot j (t + of_nat (n - 1)) =
        t + of_nat (n - 1) + (if n - 1 < m then 1 else 0)"
    using assms by (intro laps_nth) simp_all
  then have "cs ! slot j (t + of_nat n - 1) = t + of_nat n - 1 + (if n - 1 < m then 1 else 0)"
    unfolding e [symmetric] .
  then show ?thesis using assms(2) by auto
qed

lemma DequeueBatch_inv_pos:
  assumes inv: "inv j rb" and jp: "0 < j" and n: "length a \<le> 2 ^ j"
  shows "DequeueBatch rb a p q =
     (if length a = 0 \<or> unat (writeIndex rb - readIndex rb) < length a
      then Some (Inr (0, (a, p, q), rb))
      else map_outcome (\<lambda>(rb', out). (of_nat (length a), out, rb'))
             (for_each (DequeueBatch_copy (readIndex rb)) [0..<length a]
                (rb\<lparr>readIndex := readIndex rb + of_nat (length a)\<rparr>, a, p, q)))"
proof -
  let ?h = "writeIndex rb" and ?t = "readIndex rb" and ?cs = "cycleState rb"
  let ?n = "length a"
  have wf: "wf j rb" using inv by (rule inv_wf)
  then have j: "j < 64" by (simp add: wf_def)
  from inv jp obtain m where m: "m \<le> 2 ^ j" "?h = ?t + of_nat m" "laps j ?t m ?cs"
    "unat (?h - ?t) = m" by (rule inv_obtain)
  have un: "unat (of_nat ?n :: uint64) = ?n" using j n by (rule unat_of_nat_cap)
  have c: "?cs ! slot j ?t - (?t + 1) = (if 0 < m then 0 else - 1)"
    using tail_slot [OF m(3)] by simp
  show ?thesis
  proof (cases "?n = 0")
    case True
    then show ?thesis unfolding DequeueBatch_wf [OF wf] by (simp add: Let_def)
  next
    case False
    then have np: "0 < ?n" by simp
    have nz: "(of_nat ?n :: uint64) \<noteq> 0"
    proof
      assume "(of_nat ?n :: uint64) = 0"
      then have "unat (of_nat ?n :: uint64) = 0" by simp
      with un np show False by simp
    qed
    have e: "?cs ! slot j (?t + of_nat ?n - 1) - (?t + of_nat ?n) = (if ?n \<le> m then 0 else - 1)"
      using m(3) np n by (rule range_end_published)
    consider (empty) "m = 0" | (short) "0 < m" "m < ?n" | (enough) "0 < m" "?n \<le> m"
      by linarith
    then have "DequeueBatch rb a p q =
     (if m < ?n then Some (Inr (0, (a, p, q), rb))
      else map_outcome (\<lambda>(rb', out). (of_nat ?n, out, rb'))
             (for_each (DequeueBatch_copy ?t) [0..<?n] (rb\<lparr>readIndex := ?t + of_nat ?n\<rparr>, a, p, q)))"
    proof cases
      case empty
      then have "sint (?cs ! slot j ?t - (?t + 1)) < 0" using c by simp
      then show ?thesis
        unfolding DequeueBatch_wf [OF wf] using nz np empty by (simp add: Let_def)
    next
      case short
      then have "\<not> sint (?cs ! slot j ?t - (?t + 1)) < 0" using c by simp
      moreover have "sint (?cs ! slot j (?t + of_nat ?n - 1) - (?t + of_nat ?n)) < 0"
        using e short by simp
      ultimately show ?thesis
        unfolding DequeueBatch_wf [OF wf] using nz short by (simp add: Let_def)
    next
      case enough
      then have "\<not> sint (?cs ! slot j ?t - (?t + 1)) < 0" using c by simp
      moreover have "\<not> sint (?cs ! slot j (?t + of_nat ?n - 1) - (?t + of_nat ?n)) < 0"
        using e enough by simp
      ultimately show ?thesis
        unfolding DequeueBatch_wf [OF wf] using nz enough un by (simp add: Let_def)
    qed
    then show ?thesis using False m(4) by simp
  qed
qed

lemma drained_batch:
  assumes wf: "wf j rb"
    and d: "drained j (readIndex rb) n (rb\<lparr>readIndex := readIndex rb + of_nat n\<rparr>, a, p, q)
              (rb', out')"
  shows "batch_released rb n rb'" "batch_read rb n (a, p, q) out'"
proof -
  obtain a' p' q' where out: "out' = (a', p', q')" by (cases out')
  have wf': "wf j rb'" using d by (simp add: drained_def out)
  have so: "\<And>c. slot_of rb c = slot j c" using wf by (rule slot_of_wf)
  show "batch_released rb n rb'"
    using d wf wf' unfolding batch_released_def drained_def out so
    by (simp add: wf_def)
  show "batch_read rb n (a, p, q) out'"
    using d unfolding batch_read_def drained_def out so
    by simp
qed

lemma drained_inv:
  assumes inv: "inv j rb" and jp: "0 < j"
    and n: "n \<le> unat (writeIndex rb - readIndex rb)"
    and d: "drained j (readIndex rb) n (rb\<lparr>readIndex := readIndex rb + of_nat n\<rparr>, a, p, q)
              (rb', out')"
  shows "inv j rb'"
proof -
  let ?h = "writeIndex rb" and ?t = "readIndex rb" and ?cs = "cycleState rb"
  obtain a' p' q' where out: "out' = (a', p', q')" by (cases out')
  have wf': "wf j rb'" using d by (simp add: drained_def out)
  then have j: "j \<le> 64" by (simp add: wf_def)
  from inv jp obtain m where m: "m \<le> 2 ^ j" "?h = ?t + of_nat m" "laps j ?t m ?cs"
    "unat (?h - ?t) = m" by (rule inv_obtain)
  have nm: "n \<le> m" using n m(4) by simp
  have "laps j ?t m (cycleState (rb\<lparr>readIndex := ?t + of_nat n\<rparr>))" using m(3) by simp
  then have "laps j (?t + of_nat n) (m - n) (cycleState rb')"
    using d [unfolded out] nm m(1) j by (rule laps_drained)
  moreover have "readIndex rb' = ?t + of_nat n" "writeIndex rb' = ?t + of_nat n + of_nat (m - n)"
    using d m(2) nm by (simp_all add: drained_def out of_nat_diff)
  ultimately show ?thesis
    using wf' jp m(1) by (intro invI [where m = "m - n"]) simp_all
qed

lemma laps_published:
  assumes "laps j t m cs" "n \<le> m" "m \<le> 2 ^ j" "i < n"
  shows "cs ! slot j (t + of_nat i) = t + of_nat i + 1"
  using laps_nth [OF assms(1), of i] assms(2-4) by simp

text \<open>What \<^verbatim>\<open>DequeueBatch\<close> does on a reachable state of a buffer with at least two
  slots, with output slices within the capacity.\<close>

lemma DequeueBatch_result:
  assumes inv: "inv j rb" and jp: "0 < j" and n: "length a \<le> 2 ^ j"
  shows "(DequeueBatch rb a p q = Some (Inr (0, (a, p, q), rb)) \<and>
            (length a = 0 \<or> unat (writeIndex rb - readIndex rb) < length a)) \<or>
         (0 < length a \<and> length a \<le> unat (writeIndex rb - readIndex rb) \<and>
          (if length a \<le> length p \<and> length a \<le> length q
           then \<exists>rb' out'. DequeueBatch rb a p q = Some (Inr (of_nat (length a), out', rb')) \<and>
                  batch_released rb (length a) rb' \<and>
                  batch_read rb (length a) (a, p, q) out' \<and> inv j rb'
           else DequeueBatch rb a p q = Some (Inl IndexOutOfRange)))"
proof -
  let ?h = "writeIndex rb" and ?t = "readIndex rb" and ?n = "length a"
  let ?rb1 = "rb\<lparr>readIndex := ?t + of_nat ?n\<rparr>"
  let ?loop = "for_each (DequeueBatch_copy ?t) [0..<?n] (?rb1, a, p, q)"
  have wf: "wf j rb" using inv by (rule inv_wf)
  then have wf1: "wf j ?rb1" by (simp add: wf_def)
  note eq = DequeueBatch_inv_pos [OF inv jp n, where p = p and q = q]
  show ?thesis
  proof (cases "?n = 0 \<or> unat (?h - ?t) < ?n")
    case True
    then show ?thesis using eq by auto
  next
    case False
    then have av: "0 < ?n" "?n \<le> unat (?h - ?t)" by simp_all
    from inv jp obtain m where m: "m \<le> 2 ^ j" "?h = ?t + of_nat m"
      "laps j ?t m (cycleState rb)" "unat (?h - ?t) = m" by (rule inv_obtain)
    have pub: "\<And>i. i < ?n \<Longrightarrow>
        cycleState ?rb1 ! slot j (?t + of_nat i) = ?t + of_nat i + 1"
      using laps_published [OF m(3) _ m(1)] av(2) m(4) by simp
    show ?thesis
    proof (cases "?n \<le> length p \<and> ?n \<le> length q")
      case True
      then obtain s' where s': "?loop = Some (Inr s')" "drained j ?t ?n (?rb1, a, p, q) s'"
        using DequeueBatch_loop [OF wf1 n, where a = a and p = p and q = q and t = ?t] pub by auto
      obtain rb' out' where s: "s' = (rb', out')" by (cases s')
      have "batch_released rb ?n rb'" "batch_read rb ?n (a, p, q) out'"
        using wf s'(2) [unfolded s] by (rule drained_batch)+
      moreover have "inv j rb'" using inv jp av(2) s'(2) [unfolded s] by (rule drained_inv)
      ultimately show ?thesis using eq av s'(1) s True by auto
    next
      case False
      then have "length p < ?n \<or> length q < ?n" by auto
      then have "?loop = Some (Inl IndexOutOfRange)"
        using DequeueBatch_loop_panic [OF wf1 n, where a = a and p = p and q = q and t = ?t] pub by simp
      then show ?thesis using eq av False by auto
    qed
  qed
qed

lemma inv_DequeueBatch_pos:
  assumes "inv j rb" "0 < j" "length a \<le> 2 ^ j"
    "DequeueBatch rb a p q = Some (Inr (n, out, rb'))"
  shows "inv j rb'"
  using DequeueBatch_result [OF assms(1,2,3), where p = p and q = q] assms(1,4)
  by (auto split: if_splits)

lemma inv_DequeueBatch_0:
  assumes inv: "inv 0 rb" and n: "length a \<le> 1"
    and r: "DequeueBatch rb a p q = Some (Inr (k, out, rb'))"
  shows "inv 0 rb'"
proof -
  let ?h = "writeIndex rb" and ?t = "readIndex rb"
  let ?rb1 = "rb\<lparr>readIndex := ?t + 1\<rparr>"
  have wf: "wf 0 rb" using inv by (rule inv_wf)
  then have wf1: "wf 0 ?rb1" by (simp add: wf_def)
  have cs: "cycleState rb = [?h]" using inv by (simp add: inv_def)
  have s0: "\<And>c. slot 0 c = 0" by (simp add: slot_def)
  from n consider "length a = 0" | "length a = 1" by linarith
  then show ?thesis
  proof cases
    case 1
    then have "rb' = rb" using r unfolding DequeueBatch_wf [OF wf] by (simp add: Let_def)
    then show ?thesis using inv by simp
  next
    case 2
    have body: "DequeueBatch_copy ?t 0 (?rb1, a, p, q) =
        (if ?h \<noteq> ?t + 1 then None
         else Some (if 0 < length p \<and> 0 < length q then
                 Inr (?rb1\<lparr>cycleState := [?t + 1]\<rparr>, a[0 := ids rb ! 0],
                      p[0 := prices rb ! 0], q[0 := qtys rb ! 0])
               else Inl IndexOutOfRange))"
      unfolding DequeueBatch_copy_wf [OF wf1] using 2 by (simp add: Let_def cs s0)
    have "DequeueBatch rb a p q =
        (if sint (?h - (?t + 1)) < 0 then Some (Inr (0, (a, p, q), rb))
         else map_outcome (\<lambda>(rb', out). (1, out, rb'))
                (for_each (DequeueBatch_copy ?t) [0] (?rb1, a, p, q)))"
      unfolding DequeueBatch_wf [OF wf] using 2 by (simp add: Let_def cs s0)
    moreover have "for_each (DequeueBatch_copy ?t) [0] (?rb1, a, p, q) =
        (if ?h \<noteq> ?t + 1 then None
         else Some (if 0 < length p \<and> 0 < length q then
                 Inr (?rb1\<lparr>cycleState := [?t + 1]\<rparr>, a[0 := ids rb ! 0],
                      p[0 := prices rb ! 0], q[0 := qtys rb ! 0])
               else Inl IndexOutOfRange))"
      by (simp add: body)
    ultimately consider "rb' = rb"
      | "?h = ?t + 1" "rb' = ?rb1\<lparr>cycleState := [?t + 1]\<rparr>"
      using r by (auto split: if_splits)
    then show ?thesis
    proof cases
      case 1
      then show ?thesis using inv by simp
    next
      case 2
      then show ?thesis using wf by (simp add: inv_def wf_def)
    qed
  qed
qed

lemma inv_DequeueBatch:
  assumes "inv j rb" "length a \<le> 2 ^ j" "DequeueBatch rb a p q = Some (Inr (n, out, rb'))"
  shows "inv j rb'"
proof (cases "j = 0")
  case True
  then show ?thesis using inv_DequeueBatch_0 [of rb a p q n out rb'] assms by simp
next
  case False
  then show ?thesis using inv_DequeueBatch_pos [OF assms(1) _ assms(2,3)] by simp
qed

lemma inv_exec:
  assumes "inv j rb" "within_capacity (2 ^ j) c" "exec rb c = Some (Inr (r, rb'))"
  shows "inv j rb'"
proof -
  have "j < 64" using assms(1) by (simp add: inv_def wf_def)
  then have cap: "unat (2 ^ j :: uint64) = 2 ^ j" by (rule unat_cap)
  show ?thesis
  proof (cases c)
    case (OpEnqueue a p q)
    with assms(3) obtain ok where "Enqueue rb a p q = Some (Inr (ok, rb'))"
      by (auto simp: map_outcome_eq_Inr)
    with assms(1) show ?thesis by (rule inv_Enqueue)
  next
    case (OpDequeue out)
    with assms(3) obtain ok out' where "Dequeue rb out = Some (Inr (ok, out', rb'))"
      by (auto simp: map_outcome_eq_Inr)
    with assms(1) show ?thesis by (rule inv_Dequeue)
  next
    case (OpEnqueueBatch a p q)
    with assms(3) obtain n where e: "EnqueueBatch rb a p q = Some (Inr (n, rb'))"
      by (auto simp: map_outcome_eq_Inr)
    have "length a \<le> 2 ^ j" using assms(2) OpEnqueueBatch cap by simp
    with assms(1) show ?thesis using e by (rule inv_EnqueueBatch)
  next
    case (OpDequeueBatch a p q)
    with assms(3) obtain n out where e: "DequeueBatch rb a p q = Some (Inr (n, out, rb'))"
      by (auto simp: map_outcome_eq_Inr)
    have "length a \<le> 2 ^ j" using assms(2) OpDequeueBatch cap by simp
    with assms(1) show ?thesis using e by (rule inv_DequeueBatch)
  qed
qed

lemma inv_run:
  assumes "j < 64" "program max_len (2 ^ j) cs = Some (Inr (rs, rb))"
    "\<forall>c \<in> set cs. within_capacity (2 ^ j) c"
  shows "inv j rb"
proof -
  from assms(2) obtain rb0 where n: "Newbuffer max_len (2 ^ j) = Inr rb0"
    and run0: "run rb0 cs = Some (Inr (rs, rb))"
    by (rule program_Inr)
  have "inv j rb0" using assms(1) n by (rule inv_Newbuffer)
  then show ?thesis using run0
  proof (rule run_preserves)
    fix rb c r rb'
    assume a: "inv j rb" "c \<in> set cs" "exec rb c = Some (Inr (r, rb'))"
    then have "within_capacity (2 ^ j) c" using assms(3) by simp
    with a(1) show "inv j rb'" using a(3) by (rule inv_exec)
  qed
qed

section \<open>Bounded occupancy\<close>

lemma reachable_inv:
  assumes "j < 64" "program max_len (2 ^ j) cs = Some (Inr (rs, rb))"
    "list_all (within_capacity (2 ^ j)) cs"
  shows "inv j rb"
  using assms by (intro inv_run) (simp_all add: list_all_iff)

text \<open>
  Claim C3 says that for every power-of-two capacity the occupancy \<open>head - tail\<close> stays
  within \<open>[0, capacity]\<close>. With capacity 1 (\<open>2 ^ 0\<close>) it does not: the head slot's cycle
  is never behind the head cursor, so two enqueues in a row both return true and leave
  \<open>head - tail = 2\<close>.
\<close>

theorem capacity_1_occupancy_2:
  "program (2 ^ 45) 1 [OpEnqueue 1 price_100 1, OpEnqueue 2 price_100 1] =
     Some (Inr ([RetEnqueue True, RetEnqueue True],
       \<lparr>capacity = 1, mask_rb = 0, writeIndex = 2, readIndex = 0,
        cycleState = [2], ids = [2], prices = [price_100], qtys = [1]\<rparr>)) \<and>
   \<not> (writeIndex \<lparr>capacity = 1, mask_rb = 0, writeIndex = 2, readIndex = 0,
          cycleState = [2], ids = [2], prices = [price_100], qtys = [1 :: uint32]\<rparr> -
        readIndex \<lparr>capacity = 1, mask_rb = 0, writeIndex = 2, readIndex = 0,
          cycleState = [2], ids = [2], prices = [price_100], qtys = [1 :: uint32]\<rparr>
      \<le> capacity \<lparr>capacity = 1, mask_rb = 0, writeIndex = 2, readIndex = 0,
          cycleState = [2], ids = [2], prices = [price_100], qtys = [1 :: uint32]\<rparr>)"
proof (rule conjI)
  show "program (2 ^ 45) 1 [OpEnqueue 1 price_100 1, OpEnqueue 2 price_100 1] =
     Some (Inr ([RetEnqueue True, RetEnqueue True],
       \<lparr>capacity = 1, mask_rb = 0, writeIndex = 2, readIndex = 0,
        cycleState = [2], ids = [2], prices = [price_100], qtys = [1]\<rparr>))"
    by code_simp
  show "\<not> (writeIndex \<lparr>capacity = 1, mask_rb = 0, writeIndex = 2, readIndex = 0,
          cycleState = [2], ids = [2], prices = [price_100], qtys = [1 :: uint32]\<rparr> -
        readIndex \<lparr>capacity = 1, mask_rb = 0, writeIndex = 2, readIndex = 0,
          cycleState = [2], ids = [2], prices = [price_100], qtys = [1 :: uint32]\<rparr>
      \<le> capacity \<lparr>capacity = 1, mask_rb = 0, writeIndex = 2, readIndex = 0,
          cycleState = [2], ids = [2], prices = [price_100], qtys = [1 :: uint32]\<rparr>)"
    by (simp add: word_le_nat_alt)
qed

text \<open>
  Claim C3, amended: for every buffer built with a power-of-two capacity of at least 2,
  in every state that a sequential program reaches with \<^verbatim>\<open>Enqueue\<close>, \<^verbatim>\<open>Dequeue\<close>,
  \<^verbatim>\<open>EnqueueBatch\<close> and \<^verbatim>\<open>DequeueBatch\<close> calls whose batch length is at most the
  capacity, the occupancy \<open>head - tail\<close>, computed in \<^verbatim>\<open>uint64\<close>, is at most the
  capacity; and \<open>tail \<le> head\<close> as long as \<open>tail + capacity\<close> has not passed \<open>2 ^ 64\<close>.
\<close>

theorem bounded_occupancy:
  assumes "0 < j" and "j < 64"
    and "program max_len (2 ^ j) cs = Some (Inr (rs, rb))"
    and "list_all (within_capacity (2 ^ j)) cs"
  shows "capacity rb = 2 ^ j \<and> writeIndex rb - readIndex rb \<le> capacity rb \<and>
         (unat (readIndex rb) + 2 ^ j < 2 ^ 64 \<longrightarrow> readIndex rb \<le> writeIndex rb)"
proof -
  let ?h = "writeIndex rb" and ?t = "readIndex rb"
  have inv: "inv j rb" using assms(2-4) by (rule reachable_inv)
  then have cap: "capacity rb = 2 ^ j" by (simp add: inv_def wf_def)
  from inv assms(1) obtain m where m: "m \<le> 2 ^ j" "?h = ?t + of_nat m"
    "laps j ?t m (cycleState rb)" "unat (?h - ?t) = m" by (rule inv_obtain)
  have "unat (?h - ?t) \<le> unat (2 ^ j :: uint64)"
    using m(1,4) unat_cap [OF assms(2)] by simp
  then have occ: "?h - ?t \<le> capacity rb" unfolding cap by (simp add: word_le_nat_alt)
  have ord: "?t \<le> ?h" if "unat ?t + 2 ^ j < 2 ^ 64"
  proof -
    have um: "unat (of_nat m :: uint64) = m" using assms(2) m(1) by (rule unat_of_nat_cap)
    have "unat ?h = (unat ?t + m) mod 2 ^ 64"
      unfolding m(2) using unat_word_ariths(1) [of ?t "of_nat m"] um by simp
    moreover have "unat ?t + m < 2 ^ 64" using that m(1) by simp
    ultimately have "unat ?h = unat ?t + m" by simp
    then show ?thesis by (simp add: word_le_nat_alt)
  qed
  show ?thesis using cap occ ord by simp
qed

theorem bounded_occupancy_witness:
  "(0::nat) < 2 \<and> (2::nat) < 64 \<and>
   program (2 ^ 45) (2 ^ 2)
       [OpEnqueueBatch [1, 2, 3] [price_100, price_100, price_100] [1, 1, 1],
        OpDequeue (0, 0, 0), OpEnqueue 4 price_100 1, OpEnqueue 5 price_100 1] =
     Some (Inr ([RetEnqueueBatch 3, RetDequeue True (1, price_100, 1), RetEnqueue True,
                 RetEnqueue True],
       \<lparr>capacity = 4, mask_rb = 3, writeIndex = 5, readIndex = 1,
        cycleState = [5, 2, 3, 4], ids = [5, 2, 3, 4],
        prices = [price_100, price_100, price_100, price_100], qtys = [1, 1, 1, 1]\<rparr>)) \<and>
   list_all (within_capacity (2 ^ 2))
       [OpEnqueueBatch [1, 2, 3] [price_100, price_100, price_100] [1, 1, 1],
        OpDequeue (0, 0, 0), OpEnqueue 4 price_100 1, OpEnqueue 5 price_100 1] \<and>
   (5 :: uint64) - 1 \<le> 4 \<and> (1 :: uint64) \<le> 5"
proof -
  have r: "program (2 ^ 45) (2 ^ 2)
       [OpEnqueueBatch [1, 2, 3] [price_100, price_100, price_100] [1, 1, 1],
        OpDequeue (0, 0, 0), OpEnqueue 4 price_100 1, OpEnqueue 5 price_100 1] =
     Some (Inr ([RetEnqueueBatch 3, RetDequeue True (1, price_100, 1), RetEnqueue True,
                 RetEnqueue True],
       \<lparr>capacity = 4, mask_rb = 3, writeIndex = 5, readIndex = 1,
        cycleState = [5, 2, 3, 4], ids = [5, 2, 3, 4],
        prices = [price_100, price_100, price_100, price_100], qtys = [1, 1, 1, 1]\<rparr>))"
    by code_simp
  have c: "list_all (within_capacity (2 ^ 2))
       [OpEnqueueBatch [1, 2, 3] [price_100, price_100, price_100] [1, 1, 1],
        OpDequeue (0, 0, 0), OpEnqueue 4 price_100 1, OpEnqueue 5 price_100 1]"
    by simp
  have j: "(0::nat) < 2" "(2::nat) < 64" by simp_all
  from bounded_occupancy [OF j r c] r c show ?thesis by simp
qed

section \<open>Single enqueue\<close>

text \<open>
  Claim C5: in every reachable state \<^verbatim>\<open>Enqueue\<close> returns, and it returns true exactly
  when the queue is not full, that is, when the head slot's cycle is not behind the head
  cursor. On success the head cursor has advanced by one, the record's id, price and
  quantity are in the slot \<open>head & mask\<close>, and that slot's cycle is \<open>head + 1\<close>; on
  failure nothing has changed. For a capacity of at least 2, the head slot is behind
  exactly when \<open>head - tail = capacity\<close>.
\<close>

theorem Enqueue_true_iff_not_full:
  assumes "j < 64" and "program max_len (2 ^ j) cs = Some (Inr (rs, rb))"
    and "list_all (within_capacity (2 ^ j)) cs"
  shows "Enqueue rb id' price qty =
           (if head_behind rb then Some (Inr (False, rb))
            else Some (Inr (True, enqueued rb id' price qty))) \<and>
         (0 < j \<longrightarrow> (head_behind rb \<longleftrightarrow> writeIndex rb - readIndex rb = capacity rb))"
proof -
  have inv: "inv j rb" using assms by (rule reachable_inv)
  then have cap: "capacity rb = 2 ^ j" by (simp add: inv_def wf_def)
  have "writeIndex rb - readIndex rb = 2 ^ j \<longleftrightarrow> unat (writeIndex rb - readIndex rb) = 2 ^ j"
    using unat_cap [OF assms(1)] by (metis unsigned_word_eqI)
  then show ?thesis
    using Enqueue_inv(1,3) [OF inv] cap by simp
qed

theorem Enqueue_true_iff_not_full_witness:
  "(2::nat) < 64 \<and>
   program (2 ^ 45) (2 ^ 2)
       [OpEnqueueBatch [1, 2, 3] [price_100, price_100, price_100] [1, 1, 1]] =
     Some (Inr ([RetEnqueueBatch 3],
       \<lparr>capacity = 4, mask_rb = 3, writeIndex = 3, readIndex = 0,
        cycleState = [1, 2, 3, 3], ids = [1, 2, 3, 0],
        prices = [price_100, price_100, price_100, 0], qtys = [1, 1, 1, 0]\<rparr>)) \<and>
   list_all (within_capacity (2 ^ 2))
       [OpEnqueueBatch [1, 2, 3] [price_100, price_100, price_100] [1, 1, 1]] \<and>
   Enqueue \<lparr>capacity = 4, mask_rb = 3, writeIndex = 3, readIndex = 0,
        cycleState = [1, 2, 3, 3], ids = [1, 2, 3, 0],
        prices = [price_100, price_100, price_100, 0], qtys = [1, 1, 1, 0]\<rparr> 9 price_100 7 =
     Some (Inr (True,
       \<lparr>capacity = 4, mask_rb = 3, writeIndex = 4, readIndex = 0,
        cycleState = [1, 2, 3, 4], ids = [1, 2, 3, 9],
        prices = [price_100, price_100, price_100, price_100], qtys = [1, 1, 1, 7]\<rparr>))"
proof -
  let ?rb = "\<lparr>capacity = 4, mask_rb = 3, writeIndex = 3, readIndex = 0,
        cycleState = [1, 2, 3, 3], ids = [1, 2, 3, 0],
        prices = [price_100, price_100, price_100, 0], qtys = [1, 1, 1, 0 :: uint32]\<rparr>"
  have r: "program (2 ^ 45) (2 ^ 2)
       [OpEnqueueBatch [1, 2, 3] [price_100, price_100, price_100] [1, 1, 1]] =
     Some (Inr ([RetEnqueueBatch 3], ?rb))"
    by code_simp
  have c: "list_all (within_capacity (2 ^ 2))
       [OpEnqueueBatch [1, 2, 3] [price_100, price_100, price_100] [1, 1, 1]]"
    by simp
  have j: "(2::nat) < 64" by simp
  have nb: "\<not> head_behind ?rb" by (simp add: head_behind_def slot_of_def)
  have e: "enqueued ?rb 9 price_100 7 =
       \<lparr>capacity = 4, mask_rb = 3, writeIndex = 4, readIndex = 0,
        cycleState = [1, 2, 3, 4], ids = [1, 2, 3, 9],
        prices = [price_100, price_100, price_100, price_100], qtys = [1, 1, 1, 7]\<rparr>"
    by (simp add: enqueued_def slot_of_def)
  from Enqueue_true_iff_not_full [OF j r c, of 9 price_100 7] nb e r c show ?thesis by simp
qed

section \<open>Dequeue on an empty buffer\<close>

lemma reachable_weak:
  assumes "j < 64" "program max_len (2 ^ j) cs = Some (Inr (rs, rb))"
  shows "wf j rb"
  using weak_run [OF assms] by (simp add: weak_def)

lemma DequeueBatch_behind:
  assumes "wf j rb" "tail_behind rb"
  shows "DequeueBatch rb a p q = Some (Inr (0, (a, p, q), rb))"
proof -
  have "sint (cycleState rb ! slot j (readIndex rb) - (readIndex rb + 1)) < 0"
    using assms by (simp add: tail_behind_def slot_of_wf)
  then show ?thesis
    unfolding DequeueBatch_wf [OF assms(1)] by (simp add: Let_def)
qed

text \<open>
  Claim C7: in every reachable state in which the buffer is empty, that is, the tail
  slot's cycle is behind \<open>tail + 1\<close>, \<^verbatim>\<open>Dequeue\<close> returns false and \<^verbatim>\<open>DequeueBatch\<close>
  returns 0, and neither changes a cursor, a cycle, a payload entry or the caller's
  out-parameters; so two consecutive calls of either both report an empty buffer. A
  state reached within the batch contract with \<open>head = tail\<close> is empty in this sense.
\<close>

theorem empty_dequeue_changes_nothing:
  assumes "j < 64" and "program max_len (2 ^ j) cs = Some (Inr (rs, rb))"
    and "tail_behind rb \<or>
         (list_all (within_capacity (2 ^ j)) cs \<and> readIndex rb = writeIndex rb)"
  shows "tail_behind rb \<and>
         Dequeue rb out = Some (Inr (False, out, rb)) \<and>
         DequeueBatch rb a p q = Some (Inr (0, (a, p, q), rb)) \<and>
         run rb [OpDequeue out, OpDequeue out2] =
           Some (Inr ([RetDequeue False out, RetDequeue False out2], rb)) \<and>
         run rb [OpDequeueBatch a p q, OpDequeueBatch a2 p2 q2] =
           Some (Inr ([RetDequeueBatch 0 (a, p, q), RetDequeueBatch 0 (a2, p2, q2)], rb))"
proof -
  have wf: "wf j rb" using assms(1,2) by (rule reachable_weak)
  have tb: "tail_behind rb"
    using assms(3)
  proof
    assume "tail_behind rb"
    then show ?thesis .
  next
    assume a: "list_all (within_capacity (2 ^ j)) cs \<and> readIndex rb = writeIndex rb"
    then have l: "list_all (within_capacity (2 ^ j)) cs" and e: "readIndex rb = writeIndex rb"
      by simp_all
    have "inv j rb" using assms(1,2) l by (rule reachable_inv)
    then show ?thesis using e by (rule empty_tail_behind)
  qed
  have d: "\<And>out. Dequeue rb out = Some (Inr (False, out, rb))"
    using wf tb by (rule Dequeue_behind)
  have b: "\<And>a p q. DequeueBatch rb a p q = Some (Inr (0, (a, p, q), rb))"
    using wf tb by (rule DequeueBatch_behind)
  show ?thesis using tb by (simp add: d b)
qed

theorem empty_dequeue_changes_nothing_witness:
  "(2::nat) < 64 \<and>
   program (2 ^ 45) (2 ^ 2) [OpEnqueue 1 price_100 1, OpDequeue (0, 0, 0)] =
     Some (Inr ([RetEnqueue True, RetDequeue True (1, price_100, 1)],
       \<lparr>capacity = 4, mask_rb = 3, writeIndex = 1, readIndex = 1,
        cycleState = [4, 1, 2, 3], ids = [1, 0, 0, 0],
        prices = [price_100, 0, 0, 0], qtys = [1, 0, 0, 0]\<rparr>)) \<and>
   list_all (within_capacity (2 ^ 2)) [OpEnqueue 1 price_100 1, OpDequeue (0, 0, 0)] \<and>
   run \<lparr>capacity = 4, mask_rb = 3, writeIndex = 1, readIndex = 1,
        cycleState = [4, 1, 2, 3], ids = [1, 0, 0, 0],
        prices = [price_100, 0, 0, 0], qtys = [1, 0, 0, 0]\<rparr>
       [OpDequeue (7, 8, 9), OpDequeue (7, 8, 9)] =
     Some (Inr ([RetDequeue False (7, 8, 9), RetDequeue False (7, 8, 9)],
       \<lparr>capacity = 4, mask_rb = 3, writeIndex = 1, readIndex = 1,
        cycleState = [4, 1, 2, 3], ids = [1, 0, 0, 0],
        prices = [price_100, 0, 0, 0], qtys = [1, 0, 0, 0]\<rparr>)) \<and>
   run \<lparr>capacity = 4, mask_rb = 3, writeIndex = 1, readIndex = 1,
        cycleState = [4, 1, 2, 3], ids = [1, 0, 0, 0],
        prices = [price_100, 0, 0, 0], qtys = [1, 0, 0, 0]\<rparr>
       [OpDequeueBatch [0, 0] [0, 0] [0, 0], OpDequeueBatch [0, 0] [0, 0] [0, 0]] =
     Some (Inr ([RetDequeueBatch 0 ([0, 0], [0, 0], [0, 0]),
                 RetDequeueBatch 0 ([0, 0], [0, 0], [0, 0])],
       \<lparr>capacity = 4, mask_rb = 3, writeIndex = 1, readIndex = 1,
        cycleState = [4, 1, 2, 3], ids = [1, 0, 0, 0],
        prices = [price_100, 0, 0, 0], qtys = [1, 0, 0, 0]\<rparr>))"
proof -
  let ?rb = "\<lparr>capacity = 4, mask_rb = 3, writeIndex = 1, readIndex = 1,
        cycleState = [4, 1, 2, 3], ids = [1, 0, 0, 0],
        prices = [price_100, 0, 0, 0], qtys = [1, 0, 0, 0 :: uint32]\<rparr>"
  have r: "program (2 ^ 45) (2 ^ 2) [OpEnqueue 1 price_100 1, OpDequeue (0, 0, 0)] =
     Some (Inr ([RetEnqueue True, RetDequeue True (1, price_100, 1)], ?rb))"
    by code_simp
  have c: "list_all (within_capacity (2 ^ 2)) [OpEnqueue 1 price_100 1, OpDequeue (0, 0, 0)]"
    by simp
  have j: "(2::nat) < 64" by simp
  have e: "tail_behind ?rb \<or>
     (list_all (within_capacity (2 ^ 2)) [OpEnqueue 1 price_100 1, OpDequeue (0, 0, 0)] \<and>
      readIndex ?rb = writeIndex ?rb)"
    by simp
  from empty_dequeue_changes_nothing [OF j r e,
      of "(7, 8, 9)" "[0, 0]" "[0, 0]" "[0, 0]" "(7, 8, 9)" "[0, 0]" "[0, 0]" "[0, 0]"] r c
  show ?thesis by simp
qed

section \<open>Empty batches\<close>

text \<open>
  Claim C8: in every reachable state \<^verbatim>\<open>EnqueueBatch\<close> and \<^verbatim>\<open>DequeueBatch\<close> with an
  empty \<open>ids\<close> slice return 0 and leave both cursors, every cycle and every payload
  entry as they were.
\<close>

theorem empty_batch_returns_0:
  assumes "j < 64" and "program max_len (2 ^ j) cs = Some (Inr (rs, rb))"
    and "list_all (within_capacity (2 ^ j)) cs"
  shows "EnqueueBatch rb [] p q = Some (Inr (0, rb)) \<and>
         DequeueBatch rb [] p q = Some (Inr (0, ([], p, q), rb))"
proof -
  have inv: "inv j rb" using assms by (rule reachable_inv)
  then have wf: "wf j rb" by (rule inv_wf)
  have "EnqueueBatch rb [] p q = Some (Inr (0, rb))"
  proof (cases "j = 0")
    case True
    then show ?thesis
      using EnqueueBatch_inv_0 [where rb = rb and a = "[]" and p = p and q = q] inv by simp
  next
    case False
    then show ?thesis
      using EnqueueBatch_inv_pos [where rb = rb and a = "[]" and p = p and q = q and j = j] inv
      by simp
  qed
  moreover have "DequeueBatch rb [] p q = Some (Inr (0, ([], p, q), rb))"
    by (simp add: DequeueBatch_def)
  ultimately show ?thesis by simp
qed

theorem empty_batch_returns_0_witness:
  "(2::nat) < 64 \<and>
   program (2 ^ 45) (2 ^ 2) [OpEnqueue 1 price_100 1, OpEnqueue 2 price_100 1] =
     Some (Inr ([RetEnqueue True, RetEnqueue True],
       \<lparr>capacity = 4, mask_rb = 3, writeIndex = 2, readIndex = 0,
        cycleState = [1, 2, 2, 3], ids = [1, 2, 0, 0],
        prices = [price_100, price_100, 0, 0], qtys = [1, 1, 0, 0]\<rparr>)) \<and>
   list_all (within_capacity (2 ^ 2)) [OpEnqueue 1 price_100 1, OpEnqueue 2 price_100 1] \<and>
   EnqueueBatch \<lparr>capacity = 4, mask_rb = 3, writeIndex = 2, readIndex = 0,
        cycleState = [1, 2, 2, 3], ids = [1, 2, 0, 0],
        prices = [price_100, price_100, 0, 0], qtys = [1, 1, 0, 0]\<rparr> [] [] [] =
     Some (Inr (0, \<lparr>capacity = 4, mask_rb = 3, writeIndex = 2, readIndex = 0,
        cycleState = [1, 2, 2, 3], ids = [1, 2, 0, 0],
        prices = [price_100, price_100, 0, 0], qtys = [1, 1, 0, 0]\<rparr>)) \<and>
   DequeueBatch \<lparr>capacity = 4, mask_rb = 3, writeIndex = 2, readIndex = 0,
        cycleState = [1, 2, 2, 3], ids = [1, 2, 0, 0],
        prices = [price_100, price_100, 0, 0], qtys = [1, 1, 0, 0]\<rparr> [] [] [] =
     Some (Inr (0, ([], [], []), \<lparr>capacity = 4, mask_rb = 3, writeIndex = 2, readIndex = 0,
        cycleState = [1, 2, 2, 3], ids = [1, 2, 0, 0],
        prices = [price_100, price_100, 0, 0], qtys = [1, 1, 0, 0]\<rparr>))"
proof -
  let ?rb = "\<lparr>capacity = 4, mask_rb = 3, writeIndex = 2, readIndex = 0,
        cycleState = [1, 2, 2, 3], ids = [1, 2, 0, 0],
        prices = [price_100, price_100, 0, 0], qtys = [1, 1, 0, 0 :: uint32]\<rparr>"
  have r: "program (2 ^ 45) (2 ^ 2) [OpEnqueue 1 price_100 1, OpEnqueue 2 price_100 1] =
     Some (Inr ([RetEnqueue True, RetEnqueue True], ?rb))"
    by code_simp
  have c: "list_all (within_capacity (2 ^ 2)) [OpEnqueue 1 price_100 1, OpEnqueue 2 price_100 1]"
    by simp
  have j: "(2::nat) < 64" by simp
  from empty_batch_returns_0 [OF j r c, of "[]" "[]"] r c show ?thesis by simp
qed

section \<open>Batch calls transfer all or nothing\<close>

lemma batch_read_exact:
  assumes "batch_read rb n (a, p, q) out'" "length a = n" "length p = n" "length q = n"
  shows "out' = (map (\<lambda>i. ids rb ! slot_of rb (readIndex rb + of_nat i)) [0..<n],
                 map (\<lambda>i. prices rb ! slot_of rb (readIndex rb + of_nat i)) [0..<n],
                 map (\<lambda>i. qtys rb ! slot_of rb (readIndex rb + of_nat i)) [0..<n])"
proof -
  obtain a' p' q' where out: "out' = (a', p', q')" by (cases out')
  have "a' = map (\<lambda>i. ids rb ! slot_of rb (readIndex rb + of_nat i)) [0..<n]"
    using assms by (intro nth_equalityI) (simp_all add: batch_read_def out)
  moreover have "p' = map (\<lambda>i. prices rb ! slot_of rb (readIndex rb + of_nat i)) [0..<n]"
    using assms by (intro nth_equalityI) (simp_all add: batch_read_def out)
  moreover have "q' = map (\<lambda>i. qtys rb ! slot_of rb (readIndex rb + of_nat i)) [0..<n]"
    using assms by (intro nth_equalityI) (simp_all add: batch_read_def out)
  ultimately show ?thesis using out by simp
qed

text \<open>
  Claim C4 says that a batch call with \<open>1 \<le> n \<le> capacity\<close> records returns \<open>n\<close> or 0.
  With capacity 1 this fails for \<^verbatim>\<open>DequeueBatch\<close>: after two enqueues, which both
  succeed there, the slot's cycle is 2; the call passes both checks, moves the tail cursor
  and then waits for the cycle 1, which never comes. It returns neither 1 nor 0.
\<close>

theorem capacity_1_DequeueBatch_never_returns:
  "program (2 ^ 45) 1 [OpEnqueue 1 price_100 1, OpEnqueue 2 price_100 1] =
     Some (Inr ([RetEnqueue True, RetEnqueue True],
       \<lparr>capacity = 1, mask_rb = 0, writeIndex = 2, readIndex = 0,
        cycleState = [2], ids = [2], prices = [price_100], qtys = [1]\<rparr>)) \<and>
   DequeueBatch
       \<lparr>capacity = 1, mask_rb = 0, writeIndex = 2, readIndex = 0,
        cycleState = [2], ids = [2], prices = [price_100], qtys = [1]\<rparr> [0] [0] [0] = None"
proof -
  let ?rb = "\<lparr>capacity = 1, mask_rb = 0, writeIndex = 2, readIndex = 0,
        cycleState = [2], ids = [2], prices = [price_100], qtys = [1 :: uint32]\<rparr>"
  have r: "program (2 ^ 45) 1 [OpEnqueue 1 price_100 1, OpEnqueue 2 price_100 1] =
     Some (Inr ([RetEnqueue True, RetEnqueue True], ?rb))"
    by code_simp
  have wf: "wf 0 ?rb" by (simp add: wf_def)
  have wf1: "wf 0 (?rb\<lparr>readIndex := 1\<rparr>)" by (simp add: wf_def)
  have s0: "\<And>c. slot 0 c = 0" by (simp add: slot_def)
  have "DequeueBatch_copy 0 0 (?rb\<lparr>readIndex := 1\<rparr>, [0], [0], [0]) = None"
    unfolding DequeueBatch_copy_wf [OF wf1] by (simp add: Let_def s0)
  then have "DequeueBatch ?rb [0] [0] [0] = None"
    unfolding DequeueBatch_wf [OF wf] by (simp add: Let_def s0)
  with r show ?thesis by simp
qed

text \<open>
  Claim C4, amended: when one thread makes the calls, so that no two calls overlap, on a
  buffer built with a power-of-two capacity of at least 2, in every state reached within
  the batch contract, a batch call with \<open>n\<close> records, \<open>1 \<le> n \<le> capacity\<close>, in three
  slices of length \<open>n\<close> returns.
  \<^verbatim>\<open>EnqueueBatch\<close> returns \<open>n\<close> when \<open>head - tail + n \<le> capacity\<close>, having written the
  records to the cursor positions \<open>head .. head + n - 1\<close> and published each slot, and
  otherwise returns 0 with the buffer unchanged. \<^verbatim>\<open>DequeueBatch\<close> returns \<open>n\<close> when
  \<open>n \<le> head - tail\<close>, having filled the output slices with the records of the cursor
  positions \<open>tail .. tail + n - 1\<close> in cursor order and released each slot, and
  otherwise returns 0 with the buffer and the slices unchanged.
\<close>

theorem batch_all_or_nothing:
  assumes "0 < j" and "j < 64"
    and "program max_len (2 ^ j) cs = Some (Inr (rs, rb))"
    and "list_all (within_capacity (2 ^ j)) cs"
    and "1 \<le> length a" and "length a \<le> 2 ^ j"
    and "length p = length a" and "length q = length a"
  shows "(if unat (writeIndex rb - readIndex rb) + length a \<le> 2 ^ j
          then \<exists>rb'. EnqueueBatch rb a p q = Some (Inr (of_nat (length a), rb')) \<and>
                 batch_written rb (a, p, q) (length a) rb'
          else EnqueueBatch rb a p q = Some (Inr (0, rb))) \<and>
         (if length a \<le> unat (writeIndex rb - readIndex rb)
          then \<exists>rb'. DequeueBatch rb a p q =
                   Some (Inr (of_nat (length a),
                     (map (\<lambda>i. ids rb ! slot_of rb (readIndex rb + of_nat i)) [0..<length a],
                      map (\<lambda>i. prices rb ! slot_of rb (readIndex rb + of_nat i)) [0..<length a],
                      map (\<lambda>i. qtys rb ! slot_of rb (readIndex rb + of_nat i)) [0..<length a]),
                     rb')) \<and>
                 batch_released rb (length a) rb'
          else DequeueBatch rb a p q = Some (Inr (0, (a, p, q), rb)))"
proof -
  have inv: "inv j rb" using assms(2-4) by (rule reachable_inv)
  have enq: "if unat (writeIndex rb - readIndex rb) + length a \<le> 2 ^ j
          then \<exists>rb'. EnqueueBatch rb a p q = Some (Inr (of_nat (length a), rb')) \<and>
                 batch_written rb (a, p, q) (length a) rb'
          else EnqueueBatch rb a p q = Some (Inr (0, rb))"
    using EnqueueBatch_result [OF inv assms(6), where p = p and q = q] assms(1,7,8)
    by auto
  have deq: "if length a \<le> unat (writeIndex rb - readIndex rb)
          then \<exists>rb'. DequeueBatch rb a p q =
                   Some (Inr (of_nat (length a),
                     (map (\<lambda>i. ids rb ! slot_of rb (readIndex rb + of_nat i)) [0..<length a],
                      map (\<lambda>i. prices rb ! slot_of rb (readIndex rb + of_nat i)) [0..<length a],
                      map (\<lambda>i. qtys rb ! slot_of rb (readIndex rb + of_nat i)) [0..<length a]),
                     rb')) \<and>
                 batch_released rb (length a) rb'
          else DequeueBatch rb a p q = Some (Inr (0, (a, p, q), rb))"
  proof (cases "length a \<le> unat (writeIndex rb - readIndex rb)")
    case False
    then show ?thesis
      using DequeueBatch_result [OF inv assms(1,6), where p = p and q = q] by auto
  next
    case True
    then obtain rb' out' where
      r: "DequeueBatch rb a p q = Some (Inr (of_nat (length a), out', rb'))"
        "batch_released rb (length a) rb'" "batch_read rb (length a) (a, p, q) out'"
      using DequeueBatch_result [OF inv assms(1,6), where p = p and q = q] assms(5,7,8)
      by auto
    from batch_read_exact [OF r(3) refl assms(7,8)] r(1,2) True show ?thesis by auto
  qed
  from enq deq show ?thesis by (rule conjI)
qed

theorem batch_all_or_nothing_witness:
  "(0::nat) < 2 \<and> (2::nat) < 64 \<and>
   program (2 ^ 45) (2 ^ 2) [OpEnqueue 1 price_100 1, OpEnqueue 2 price_100 1] =
     Some (Inr ([RetEnqueue True, RetEnqueue True],
       \<lparr>capacity = 4, mask_rb = 3, writeIndex = 2, readIndex = 0,
        cycleState = [1, 2, 2, 3], ids = [1, 2, 0, 0],
        prices = [price_100, price_100, 0, 0], qtys = [1, 1, 0, 0]\<rparr>)) \<and>
   list_all (within_capacity (2 ^ 2)) [OpEnqueue 1 price_100 1, OpEnqueue 2 price_100 1] \<and>
   (\<exists>rb'. EnqueueBatch
        \<lparr>capacity = 4, mask_rb = 3, writeIndex = 2, readIndex = 0,
         cycleState = [1, 2, 2, 3], ids = [1, 2, 0, 0],
         prices = [price_100, price_100, 0, 0], qtys = [1, 1, 0, 0]\<rparr>
        [7, 8] [5, 6] [3, 4] = Some (Inr (2, rb')) \<and>
      batch_written
        \<lparr>capacity = 4, mask_rb = 3, writeIndex = 2, readIndex = 0,
         cycleState = [1, 2, 2, 3], ids = [1, 2, 0, 0],
         prices = [price_100, price_100, 0, 0], qtys = [1, 1, 0, 0]\<rparr>
        ([7, 8], [5, 6], [3, 4]) 2 rb') \<and>
   (\<exists>rb'. DequeueBatch
        \<lparr>capacity = 4, mask_rb = 3, writeIndex = 2, readIndex = 0,
         cycleState = [1, 2, 2, 3], ids = [1, 2, 0, 0],
         prices = [price_100, price_100, 0, 0], qtys = [1, 1, 0, 0]\<rparr>
        [7, 8] [5, 6] [3, 4] = Some (Inr (2, ([1, 2], [price_100, price_100], [1, 1]), rb')) \<and>
      batch_released
        \<lparr>capacity = 4, mask_rb = 3, writeIndex = 2, readIndex = 0,
         cycleState = [1, 2, 2, 3], ids = [1, 2, 0, 0],
         prices = [price_100, price_100, 0, 0], qtys = [1, 1, 0, 0]\<rparr> 2 rb')"
proof -
  let ?rb = "\<lparr>capacity = 4, mask_rb = 3, writeIndex = 2, readIndex = 0,
        cycleState = [1, 2, 2, 3], ids = [1, 2, 0, 0],
        prices = [price_100, price_100, 0, 0], qtys = [1, 1, 0, 0 :: uint32]\<rparr>"
  have r: "program (2 ^ 45) (2 ^ 2) [OpEnqueue 1 price_100 1, OpEnqueue 2 price_100 1] =
     Some (Inr ([RetEnqueue True, RetEnqueue True], ?rb))"
    by code_simp
  have c: "list_all (within_capacity (2 ^ 2)) [OpEnqueue 1 price_100 1, OpEnqueue 2 price_100 1]"
    by simp
  have j: "(0::nat) < 2" "(2::nat) < 64" by simp_all
  have l: "1 \<le> length [7, 8 :: uint64]" "length [7, 8 :: uint64] \<le> 2 ^ 2"
    "length [5, 6 :: float64] = length [7, 8 :: uint64]"
    "length [3, 4 :: uint32] = length [7, 8 :: uint64]"
    by simp_all
  have u: "[0..<2] = [0, Suc 0]" by (simp add: upt_rec)
  have len: "length [7, 8 :: uint64] = 2" by simp
  note t = batch_all_or_nothing [OF j r c l, unfolded len]
  have e: "\<exists>rb'. EnqueueBatch ?rb [7, 8] [5, 6] [3, 4] = Some (Inr (2, rb')) \<and>
      batch_written ?rb ([7, 8], [5, 6], [3, 4]) 2 rb'"
    using t [THEN conjunct1] by simp
  have d: "\<exists>rb'. DequeueBatch ?rb [7, 8] [5, 6] [3, 4] =
        Some (Inr (2, ([1, 2], [price_100, price_100], [1, 1]), rb')) \<and>
      batch_released ?rb 2 rb'"
    using t [THEN conjunct2] by (simp add: slot_of_def u)
  from j r c e d show ?thesis by (intro conjI)
qed

section \<open>Slices of different lengths\<close>





section \<open>Two consumers and a batch producer\<close>

text \<open>
  Claim C10 says that for every interleaving of producers and consumers no record is lost
  or delivered twice. \<^verbatim>\<open>EnqueueBatch\<close> inspects only the first and the last slot of
  the range it reserves, and the following interleaving on a buffer of capacity 4 loses the
  record with id 11. Each line is a step of one thread on the shared buffer, taken from the
  functions above:
  \<^item> a producer enqueues the batch 10..13;
  \<^item> consumer X calls \<^verbatim>\<open>DequeueBatch\<close> for two records: its checks pass, it moves the
    tail cursor to 2 and enters its copy loop;
  \<^item> X runs the first round of the loop (copies 10, releases slot 0) and is descheduled;
  \<^item> consumer Y dequeues the batch 12, 13 and releases the slots 2 and 3;
  \<^item> a producer enqueues the batch 40..43: slot 0 is writable and slot 3 is not behind, so
    the reservation succeeds, and the copy loop overwrites slot 1, which X has not read;
  \<^item> X runs its second round: it waits for the cycle 2 in slot 1, which now holds 6, and
    never returns.
\<close>

theorem batch_interleaving_loses_record:
  "program (2 ^ 45) 4 [OpEnqueueBatch [10, 11, 12, 13] [20, 21, 22, 23] [30, 31, 32, 33]] =
     Some (Inr ([RetEnqueueBatch 4],
       \<lparr>capacity = 4, mask_rb = 3, writeIndex = 4, readIndex = 0,
        cycleState = [1, 2, 3, 4], ids = [10, 11, 12, 13],
        prices = [20, 21, 22, 23], qtys = [30, 31, 32, 33]\<rparr>)) \<and>
   DequeueBatch
       \<lparr>capacity = 4, mask_rb = 3, writeIndex = 4, readIndex = 0,
        cycleState = [1, 2, 3, 4], ids = [10, 11, 12, 13],
        prices = [20, 21, 22, 23], qtys = [30, 31, 32, 33]\<rparr> [0, 0] [0, 0] [0, 0] =
     map_outcome (\<lambda>(rb', out). (2, out, rb'))
       (for_each (DequeueBatch_copy 0) [0..<2]
         (\<lparr>capacity = 4, mask_rb = 3, writeIndex = 4, readIndex = 2,
           cycleState = [1, 2, 3, 4], ids = [10, 11, 12, 13],
           prices = [20, 21, 22, 23], qtys = [30, 31, 32, 33]\<rparr>, [0, 0], [0, 0], [0, 0])) \<and>
   for_each (DequeueBatch_copy 0) [0..<1]
       (\<lparr>capacity = 4, mask_rb = 3, writeIndex = 4, readIndex = 2,
         cycleState = [1, 2, 3, 4], ids = [10, 11, 12, 13],
         prices = [20, 21, 22, 23], qtys = [30, 31, 32, 33]\<rparr>, [0, 0], [0, 0], [0, 0]) =
     Some (Inr
       (\<lparr>capacity = 4, mask_rb = 3, writeIndex = 4, readIndex = 2,
         cycleState = [4, 2, 3, 4], ids = [10, 11, 12, 13],
         prices = [20, 21, 22, 23], qtys = [30, 31, 32, 33]\<rparr>, [10, 0], [20, 0], [30, 0])) \<and>
   DequeueBatch
       \<lparr>capacity = 4, mask_rb = 3, writeIndex = 4, readIndex = 2,
        cycleState = [4, 2, 3, 4], ids = [10, 11, 12, 13],
        prices = [20, 21, 22, 23], qtys = [30, 31, 32, 33]\<rparr> [0, 0] [0, 0] [0, 0] =
     Some (Inr (2, ([12, 13], [22, 23], [32, 33]),
       \<lparr>capacity = 4, mask_rb = 3, writeIndex = 4, readIndex = 4,
        cycleState = [4, 2, 6, 7], ids = [10, 11, 12, 13],
        prices = [20, 21, 22, 23], qtys = [30, 31, 32, 33]\<rparr>)) \<and>
   EnqueueBatch
       \<lparr>capacity = 4, mask_rb = 3, writeIndex = 4, readIndex = 4,
        cycleState = [4, 2, 6, 7], ids = [10, 11, 12, 13],
        prices = [20, 21, 22, 23], qtys = [30, 31, 32, 33]\<rparr>
       [40, 41, 42, 43] [50, 51, 52, 53] [60, 61, 62, 63] =
     Some (Inr (4,
       \<lparr>capacity = 4, mask_rb = 3, writeIndex = 8, readIndex = 4,
        cycleState = [5, 6, 7, 8], ids = [40, 41, 42, 43],
        prices = [50, 51, 52, 53], qtys = [60, 61, 62, 63]\<rparr>)) \<and>
   for_each (DequeueBatch_copy 0) [1..<2]
       (\<lparr>capacity = 4, mask_rb = 3, writeIndex = 8, readIndex = 4,
         cycleState = [5, 6, 7, 8], ids = [40, 41, 42, 43],
         prices = [50, 51, 52, 53], qtys = [60, 61, 62, 63]\<rparr>, [10, 0], [20, 0], [30, 0]) =
     None"
proof -
  let ?s1 = "\<lparr>capacity = 4, mask_rb = 3, writeIndex = 4, readIndex = 0,
        cycleState = [1, 2, 3, 4], ids = [10, 11, 12, 13],
        prices = [20, 21, 22, 23], qtys = [30, 31, 32, 33 :: uint32]\<rparr>"
  let ?s4 = "\<lparr>capacity = 4, mask_rb = 3, writeIndex = 8, readIndex = 4,
         cycleState = [5, 6, 7, 8], ids = [40, 41, 42, 43],
         prices = [50, 51, 52, 53], qtys = [60, 61, 62, 63 :: uint32]\<rparr>"
  have a: "program (2 ^ 45) 4
       [OpEnqueueBatch [10, 11, 12, 13] [20, 21, 22, 23] [30, 31, 32, 33]] =
     Some (Inr ([RetEnqueueBatch 4], ?s1))"
    by code_simp
  have wf1: "wf 2 ?s1" by (simp add: wf_def)
  have sl: "slot 2 0 = 0" "slot 2 1 = 1" by (simp_all add: slot_def)
  have b: "DequeueBatch ?s1 [0, 0] [0, 0] [0, 0] =
     map_outcome (\<lambda>(rb', out). (2, out, rb'))
       (for_each (DequeueBatch_copy 0) [0..<2]
         (\<lparr>capacity = 4, mask_rb = 3, writeIndex = 4, readIndex = 2,
           cycleState = [1, 2, 3, 4], ids = [10, 11, 12, 13],
           prices = [20, 21, 22, 23], qtys = [30, 31, 32, 33]\<rparr>, [0, 0], [0, 0], [0, 0]))"
    unfolding DequeueBatch_wf [OF wf1] by (simp add: Let_def sl)
  have c: "for_each (DequeueBatch_copy 0) [0..<1]
       (\<lparr>capacity = 4, mask_rb = 3, writeIndex = 4, readIndex = 2,
         cycleState = [1, 2, 3, 4], ids = [10, 11, 12, 13],
         prices = [20, 21, 22, 23], qtys = [30, 31, 32, 33]\<rparr>, [0, 0], [0, 0], [0, 0]) =
     Some (Inr
       (\<lparr>capacity = 4, mask_rb = 3, writeIndex = 4, readIndex = 2,
         cycleState = [4, 2, 3, 4], ids = [10, 11, 12, 13],
         prices = [20, 21, 22, 23], qtys = [30, 31, 32, 33]\<rparr>, [10, 0], [20, 0], [30, 0]))"
    by code_simp
  have d: "DequeueBatch
       \<lparr>capacity = 4, mask_rb = 3, writeIndex = 4, readIndex = 2,
        cycleState = [4, 2, 3, 4], ids = [10, 11, 12, 13],
        prices = [20, 21, 22, 23], qtys = [30, 31, 32, 33]\<rparr> [0, 0] [0, 0] [0, 0] =
     Some (Inr (2, ([12, 13], [22, 23], [32, 33]),
       \<lparr>capacity = 4, mask_rb = 3, writeIndex = 4, readIndex = 4,
        cycleState = [4, 2, 6, 7], ids = [10, 11, 12, 13],
        prices = [20, 21, 22, 23], qtys = [30, 31, 32, 33]\<rparr>))"
    by code_simp
  have e: "EnqueueBatch
       \<lparr>capacity = 4, mask_rb = 3, writeIndex = 4, readIndex = 4,
        cycleState = [4, 2, 6, 7], ids = [10, 11, 12, 13],
        prices = [20, 21, 22, 23], qtys = [30, 31, 32, 33]\<rparr>
       [40, 41, 42, 43] [50, 51, 52, 53] [60, 61, 62, 63] = Some (Inr (4, ?s4))"
    by code_simp
  have wf4: "wf 2 ?s4" by (simp add: wf_def)
  have "DequeueBatch_copy 0 1 (?s4, [10, 0], [20, 0], [30, 0]) = None"
    unfolding DequeueBatch_copy_wf [OF wf4] by (simp add: Let_def sl)
  moreover have "[1..<2] = [1 :: nat]" by (simp add: upt_rec)
  ultimately have f: "for_each (DequeueBatch_copy 0) [1..<2]
       (?s4, [10, 0], [20, 0], [30, 0]) = None"
    by simp
  from a b c d e f show ?thesis by (intro conjI)
qed

end
